theory Spec2Isabelle
  imports Main "HOL-Library.Word" "HOL-Library.Sublist"
begin

unbundle bit_operations_syntax

section \<open>The quirk list editor (\<open>remove_card_reader_quirk\<close>)\<close>

text \<open>
  Bytes are \<open>char\<close>s. The quirk entry of the card reader and the three characters the
  editor looks at: the string terminator, the line feed and the delimiter.
\<close>

definition CARD_READER_QUIRK :: string where
  "CARD_READER_QUIRK = ''058f:6366:i''"

abbreviation NUL :: char where "NUL \<equiv> CHR 0x00"
abbreviation LF :: char where "LF \<equiv> CHR 0x0A"
abbreviation COMMA :: char where "COMMA \<equiv> CHR '',''"

text \<open>
  A C string inside a byte buffer is the run of bytes in front of the first \<open>NUL\<close>;
  \<open>strlen\<close> is its length.
\<close>

definition c_str :: "char list \<Rightarrow> string" where
  "c_str mem = takeWhile (\<lambda>c. c \<noteq> NUL) mem"

definition strlen :: "char list \<Rightarrow> nat" where
  "strlen mem = length (c_str mem)"

text \<open>
  \<open>strstr haystack needle\<close>: the offset of the first occurrence of \<open>needle\<close> in
  \<open>haystack\<close>, or \<open>None\<close> for the null pointer. Both arguments are C strings already
  cut at their terminator.
\<close>

fun strstr :: "string \<Rightarrow> string \<Rightarrow> nat option" where
  "strstr [] needle = (if needle = [] then Some 0 else None)"
| "strstr (c # cs) needle =
     (if prefix needle (c # cs) then Some 0 else map_option Suc (strstr cs needle))"

text \<open>
  \<open>memmove mem dest src len\<close> copies \<open>len\<close> bytes from address \<open>src\<close> to address
  \<open>dest\<close> of the memory \<open>mem\<close>; the regions may overlap and every other byte keeps
  its value.
\<close>

definition memmove :: "char list \<Rightarrow> nat \<Rightarrow> nat \<Rightarrow> nat \<Rightarrow> char list" where
  "memmove mem dest src len = take dest mem @ take len (drop src mem) @ drop (dest + len) mem"

text \<open>
  Lines 161 to 187 of the source, with the quirk as a parameter. \<open>quirks\<close> holds the
  \<open>bytes_read\<close> bytes of the heap block that the program has written (the rest of the
  1024 bytes is never touched), so \<open>bytes_read = length quirks\<close>.

  The test \<open>pos > 0\<close> of the source compares a pointer with the null pointer and
  is true for every match, also for a match at the very start of the block. There
  \<open>*(pos - 1)\<close> is the byte in front of the block, \<open>quirks[-1]\<close>, which belongs to the
  allocator. It is the parameter \<open>before\<close>: the memory the function works on is
  \<open>before # quirks\<close>, where \<open>quirks + k\<close> has address \<open>Suc k\<close>; \<open>offset\<close> is
  \<open>pos - quirks\<close>. The result is the block after the \<open>memmove\<close>, or \<open>None\<close> when
  \<open>strstr\<close> returned the null pointer.
\<close>

definition remove_quirk :: "string \<Rightarrow> char \<Rightarrow> char list \<Rightarrow> char list option" where
  "remove_quirk quirk before quirks =
     (case strstr (c_str quirks) quirk of
        None \<Rightarrow> None
      | Some offset \<Rightarrow>
          let mem = before # quirks;
              pos = Suc offset;
              comma_before = (mem ! (pos - 1) = COMMA);
              comma_after = (mem ! (pos + length quirk) = COMMA);
              move_dest = pos;
              move_src = pos + length quirk;
              move_len = length quirks - offset - length quirk
          in Some (tl (if comma_before then memmove mem (move_dest - 1) move_src move_len
                       else if comma_after then memmove mem move_dest (move_src + 1) (move_len - 1)
                       else memmove mem move_dest move_src move_len)))"

text \<open>
  What the function meets outside the program: the content of the quirks file (\<open>None\<close>
  when it cannot be opened for reading), whether it can be opened for writing, and the
  byte in front of the heap block.
\<close>

record quirks_env =
  quirks_content :: "string option"
  quirks_writable :: bool
  heap_before :: char

text \<open>
  The buffer after \<open>fread\<close> of at most 1023 bytes and the termination of lines 153 to
  159: a final line feed is overwritten by the terminator, otherwise the terminator is
  appended and \<open>bytes_read\<close> grows by one.
\<close>

definition read_quirks :: "string \<Rightarrow> char list" where
  "read_quirks content =
     (let bytes = take 1023 content
      in if last bytes = LF then butlast bytes @ [NUL] else bytes @ [NUL])"

text \<open>
  The whole function. The result is what it writes to the quirks file: \<open>Some s\<close> when
  the file is opened for writing and rewritten with \<open>s\<close>, the first
  \<open>strlen(quirks)\<close> bytes of the block, and \<open>None\<close> when the file is left alone.
  The allocation of the block is taken to succeed.
\<close>

definition remove_card_reader_quirk :: "quirks_env \<Rightarrow> string option" where
  "remove_card_reader_quirk env =
     (case quirks_content env of
        None \<Rightarrow> None
      | Some content \<Rightarrow>
          if take 1023 content = [] then None
          else (case remove_quirk CARD_READER_QUIRK (heap_before env) (read_quirks content) of
                  None \<Rightarrow> None
                | Some quirks \<Rightarrow>
                    if quirks_writable env then Some (take (strlen quirks) quirks)
                    else None))"

text \<open>
  The editor as the function from text to text that the specification calls
  \<open>removeEntry\<close>: the text is put into a terminated buffer, edited, and read back as a
  C string.
\<close>

definition removeEntry :: "char \<Rightarrow> string \<Rightarrow> string \<Rightarrow> string" where
  "removeEntry before text entry =
     (case remove_quirk entry before (text @ [NUL]) of
        None \<Rightarrow> text
      | Some quirks \<Rightarrow> c_str quirks)"

section \<open>Comma-delimited lists\<close>

text \<open>
  The notions the claims about the editor are stated with; the program itself has no
  function for them. A comma-delimited text is the entries \<open>join_commas es\<close> with a
  comma between neighbours; \<open>entries\<close> reads the entries back (the empty text has
  none). A text has a stray comma when it begins or ends with a comma or has two commas
  in a row.
\<close>

fun join_commas :: "string list \<Rightarrow> string" where
  "join_commas [] = []"
| "join_commas [e] = e"
| "join_commas (e # es) = e @ COMMA # join_commas es"

fun split_commas :: "string \<Rightarrow> string list" where
  "split_commas [] = [[]]"
| "split_commas (c # cs) =
     (if c = COMMA then [] # split_commas cs
      else (case split_commas cs of [] \<Rightarrow> [[c]] | e # es \<Rightarrow> (c # e) # es))"

definition entries :: "string \<Rightarrow> string list" where
  "entries text = (if text = [] then [] else split_commas text)"

fun doubled_comma :: "string \<Rightarrow> bool" where
  "doubled_comma (a # b # s) = ((a = COMMA \<and> b = COMMA) \<or> doubled_comma (b # s))"
| "doubled_comma s = False"

definition stray_comma :: "string \<Rightarrow> bool" where
  "stray_comma s = (s \<noteq> [] \<and> (hd s = COMMA \<or> last s = COMMA) \<or> doubled_comma s)"

section \<open>The presence sampler (\<open>check_card_presence\<close>)\<close>

text \<open>
  One call of \<open>gpiod_line_get_value_bulk\<close> gives its return code and the array
  \<open>values\<close> it filled in (one \<open>int\<close> per presence line).
\<close>

type_synonym gpio_read = "int \<times> int list"

definition NUM_PRESENCE_GPIOS :: nat where
  "NUM_PRESENCE_GPIOS = 4"

definition check_card_presence :: "gpio_read \<Rightarrow> 8 word" where
  "check_card_presence rd =
     (case rd of (rc, vals) \<Rightarrow>
        if rc \<noteq> 0 then 0
        else fold (\<lambda>i retval. if vals ! i \<noteq> 0 then retval OR push_bit i 1 else retval)
               [0..<NUM_PRESENCE_GPIOS] 0)"

section \<open>The debounce engine (\<open>wait_for_card_presence_change\<close>)\<close>

text \<open>
  The engine sees the world through two calls, \<open>gpiod_line_event_wait_bulk\<close> and the
  sampler. The wait belongs to libgpiod, not to this program; it is modelled by its
  contract. What the lines do during one wait is an \<open>arrival\<close>: the call fails, or
  the next edge on any of the lines arrives so many nanoseconds after the call began.
  With a timeout the call returns 1 when the edge arrives before the timeout has
  passed and 0 when the timeout passes first; without a timeout (the null pointer) it
  returns 1 when the edge arrives; a failed call returns -1.
\<close>

datatype arrival = Fails | Edge_after nat

definition gpiod_line_event_wait_bulk :: "nat option \<Rightarrow> arrival \<Rightarrow> int" where
  "gpiod_line_event_wait_bulk tmo a =
     (case a of
        Fails \<Rightarrow> - 1
      | Edge_after ns \<Rightarrow>
          (case tmo of None \<Rightarrow> 1 | Some t \<Rightarrow> if ns < t then 1 else 0))"

text \<open>
  The \<open>struct timespec timeout\<close> of line 82, zero seconds and 500000000 nanoseconds,
  in nanoseconds: the 500 ms of the settling window.
\<close>

definition timeout :: nat where
  "timeout = 0 * 1000000000 + 500000000"

text \<open>
  Every wait that does not end the process is followed by exactly one sample, so one
  step of a run is the pair of the arrival during the wait and the read behind the
  sample that follows it. A run is a list of steps; when the list is used up the
  process is blocked in its next wait. Reading the pending events off the lines changes
  nothing the program looks at and is left out.
\<close>

type_synonym wait_step = "arrival \<times> gpio_read"

datatype wait_outcome =
    Exited nat
  | Settled "8 word" "wait_step list"
  | Idle
  | Settling "8 word"

text \<open>
  The loop of lines 104 to 123 with \<open>bouncy_state\<close> as its state. It ends with
  \<open>Settled d rest\<close> when it breaks and line 126 stores \<open>d\<close> in
  \<open>debounced_presence_flags\<close> (\<open>rest\<close> are the steps not yet used), with
  \<open>Exited 5\<close> on a failed wait, and with \<open>Settling b\<close> when the steps run out while
  it waits with the candidate \<open>b\<close>.
\<close>

fun settle :: "8 word \<Rightarrow> wait_step list \<Rightarrow> wait_outcome" where
  "settle bouncy_state [] = Settling bouncy_state"
| "settle bouncy_state ((a, rd) # rest) =
     (if gpiod_line_event_wait_bulk (Some timeout) a < 0 then Exited 5
      else if gpiod_line_event_wait_bulk (Some timeout) a > 0
        then settle (check_card_presence rd) rest
      else if bouncy_state = check_card_presence rd then Settled bouncy_state rest
      else settle bouncy_state rest)"

fun wait_for_card_presence_change :: "wait_step list \<Rightarrow> wait_outcome" where
  "wait_for_card_presence_change [] = Idle"
| "wait_for_card_presence_change ((a, rd) # rest) =
     (if gpiod_line_event_wait_bulk None a \<le> 0 then Exited 4
      else settle (check_card_presence rd) rest)"

text \<open>
  Two kinds of step that the claims speak of: a step on which an edge arrives before
  the 500 ms have passed, and a step on which 500 ms or more pass without an edge.
\<close>

fun early :: "wait_step \<Rightarrow> bool" where
  "early (Edge_after ns, rd) = (ns < timeout)"
| "early (Fails, rd) = False"

fun quiet :: "wait_step \<Rightarrow> bool" where
  "quiet (Edge_after ns, rd) = (timeout \<le> ns)"
| "quiet (Fails, rd) = False"

section \<open>The device lifecycle controller and the event loop (\<open>main\<close>)\<close>

text \<open>The command each of the three functions hands to \<open>system\<close>.\<close>

definition bind_card_reader :: string where
  "bind_card_reader = ''echo 1-1.4:1.0 > /sys/bus/usb/drivers/usb-storage/bind 2>/dev/null''"

definition connect_card_reader :: string where
  "connect_card_reader = ''echo 1 > /sys/bus/usb/devices/1-1.4/authorized''"

definition disconnect_card_reader :: string where
  "disconnect_card_reader = ''echo 0 > /sys/bus/usb/devices/1-1.4/authorized''"

text \<open>
  What a run leaves behind: the commands given to \<open>system\<close> in order, the value of
  \<open>debounced_presence_flags\<close>, and the exit status (\<open>None\<close> while the process is
  blocked in a wait).
\<close>

record run =
  commands :: "string list"
  debounced_presence_flags :: "8 word"
  exit_status :: "nat option"

text \<open>The loop of lines 259 to 266, started with the debounced flags \<open>debounced\<close>.\<close>

function monitor :: "8 word \<Rightarrow> wait_step list \<Rightarrow> run" where
  "monitor debounced steps =
     (case wait_for_card_presence_change steps of
        Exited n \<Rightarrow> \<lparr>commands = [], debounced_presence_flags = debounced, exit_status = Some n\<rparr>
      | Idle \<Rightarrow> \<lparr>commands = [], debounced_presence_flags = debounced, exit_status = None\<rparr>
      | Settling b \<Rightarrow> \<lparr>commands = [], debounced_presence_flags = debounced, exit_status = None\<rparr>
      | Settled d rest \<Rightarrow>
          (let r = monitor d rest
           in r\<lparr>commands := (if d \<noteq> 0 then connect_card_reader else disconnect_card_reader)
                               # commands r\<rparr>))"
  by pat_completeness auto
termination
proof (relation "measure (\<lambda>(d, steps). length steps)")
  show "wf (measure (\<lambda>(d :: 8 word, steps :: wait_step list). length steps))"
    by simp
next
  fix debounced :: "8 word" and steps :: "wait_step list" and d rest
  assume settled: "wait_for_card_presence_change steps = Settled d rest"
  have shorter: "settle b xs = Settled d rest \<Longrightarrow> length rest < length xs" for b xs
    by (induction b xs rule: settle.induct) (auto split: if_splits)
  from settled have "length rest < length steps"
  proof (cases steps)
    case Nil
    with settled show ?thesis by simp
  next
    case (Cons step xs)
    obtain a rd where step: "step = (a, rd)" by (cases step)
    from settled Cons step have "settle (check_card_presence rd) xs = Settled d rest"
      by (simp split: if_splits)
    from shorter [OF this] Cons show ?thesis by simp
  qed
  then show "((d, rest), (debounced, steps)) \<in> measure (\<lambda>(d, steps). length steps)"
    by simp
qed

declare monitor.simps [simp del]

text \<open>
  The process from its start: the three requests to the GPIO library, the quirk
  removal, the first sample and the loop.
\<close>

record daemon_env =
  chip_found :: bool
  get_lines_rc :: int
  request_events_rc :: int
  quirks_file :: quirks_env
  first_read :: gpio_read
  waits :: "wait_step list"

record daemon_run = run +
  quirks_rewritten :: "string option"

definition main :: "daemon_env \<Rightarrow> daemon_run" where
  "main env =
     (if \<not> chip_found env then
        \<lparr>commands = [], debounced_presence_flags = 0, exit_status = Some 1,
         quirks_rewritten = None\<rparr>
      else if get_lines_rc env \<noteq> 0 then
        \<lparr>commands = [], debounced_presence_flags = 0, exit_status = Some 2,
         quirks_rewritten = None\<rparr>
      else if request_events_rc env \<noteq> 0 then
        \<lparr>commands = [], debounced_presence_flags = 0, exit_status = Some 3,
         quirks_rewritten = None\<rparr>
      else
        (let rewritten = remove_card_reader_quirk (quirks_file env);
             debounced = check_card_presence (first_read env);
             startup = (if debounced \<noteq> 0 then [bind_card_reader, connect_card_reader]
                        else [disconnect_card_reader]);
             r = monitor debounced (waits env)
         in \<lparr>commands = startup @ commands r,
             debounced_presence_flags = debounced_presence_flags r,
             exit_status = exit_status r,
             quirks_rewritten = rewritten\<rparr>))"

section \<open>Properties of the sampler\<close>

lemma upt_presence_gpios: "[0..<NUM_PRESENCE_GPIOS] = [0, Suc 0, 2, 3]"
  by (simp add: NUM_PRESENCE_GPIOS_def upt_rec)

lemma check_card_presence_ok:
  "check_card_presence (0, vals) =
     (if vals ! 0 \<noteq> 0 then 1 else 0) OR (if vals ! 1 \<noteq> 0 then 2 else 0) OR
     (if vals ! 2 \<noteq> 0 then 4 else 0) OR (if vals ! 3 \<noteq> 0 then 8 else 0)"
  by (simp add: check_card_presence_def upt_presence_gpios)

lemma check_card_presence_failed: "rc \<noteq> 0 \<Longrightarrow> check_card_presence (rc, vals) = 0"
  by (simp add: check_card_presence_def)

lemma bit_one: "bit (1 :: 8 word) i \<longleftrightarrow> i = 0"
  by (simp add: bit_1_iff)

lemma bit_two: "bit (2 :: 8 word) i \<longleftrightarrow> i = 1"
  using bit_push_bit_iff [of 1 "1 :: 8 word" i] by (auto simp add: bit_1_iff)

lemma bit_four: "bit (4 :: 8 word) i \<longleftrightarrow> i = 2"
  using bit_push_bit_iff [of 2 "1 :: 8 word" i] by (auto simp add: bit_1_iff)

lemma bit_eight: "bit (8 :: 8 word) i \<longleftrightarrow> i = 3"
  using bit_push_bit_iff [of 3 "1 :: 8 word" i] by (auto simp add: bit_1_iff)

lemma mask_bits:
  "bit ((if a then 1 else 0) OR (if b then 2 else 0) OR (if c then 4 else 0) OR
        (if d then 8 else (0 :: 8 word))) i
   \<longleftrightarrow> (i = 0 \<and> a) \<or> (i = 1 \<and> b) \<or> (i = 2 \<and> c) \<or> (i = 3 \<and> d)"
proof -
  have zero: "\<not> bit (0 :: 8 word) i" by simp
  show ?thesis
    unfolding bit_or_iff
    by (cases a; cases b; cases c; cases d)
       (simp_all only: if_True if_False bit_one bit_two bit_four bit_eight zero simp_thms)
qed

lemma check_card_presence_bit:
  "bit (check_card_presence (0, vals)) i \<longleftrightarrow> i < NUM_PRESENCE_GPIOS \<and> vals ! i \<noteq> 0"
proof -
  have "i = 0 \<or> i = 1 \<or> i = 2 \<or> i = 3 \<or> 4 \<le> i" by arith
  then show ?thesis
    unfolding check_card_presence_ok mask_bits NUM_PRESENCE_GPIOS_def by auto
qed

text \<open>
  Claim C8. When the batch read of the four presence lines fails (a return code other
  than zero), \<open>check_card_presence\<close> returns the all-absent bitmask 0 and reports no
  error. When the read succeeds, bit \<open>i\<close> of the result is set exactly when line
  \<open>i\<close> of the four is active; no other bit is set.
\<close>

theorem check_card_presence_fails_closed:
  "(rc \<noteq> 0 \<longrightarrow> check_card_presence (rc, vals) = 0) \<and>
   (rc = 0 \<and> length vals = NUM_PRESENCE_GPIOS \<longrightarrow>
      (\<forall>i. bit (check_card_presence (rc, vals)) i \<longleftrightarrow> i < NUM_PRESENCE_GPIOS \<and> vals ! i \<noteq> 0))"
  by (simp add: check_card_presence_failed check_card_presence_bit)

theorem check_card_presence_fails_closed_witness:
  "check_card_presence (- 1, [1, 1, 1, 1]) = 0 \<and>
   length [1, 0, 0, 1 :: int] = NUM_PRESENCE_GPIOS \<and>
   (\<forall>i. bit (check_card_presence (0, [1, 0, 0, 1])) i
          \<longleftrightarrow> i < NUM_PRESENCE_GPIOS \<and> [1, 0, 0, 1 :: int] ! i \<noteq> 0) \<and>
   check_card_presence (0, [1, 0, 0, 1]) = 9"
  using check_card_presence_fails_closed [of "- 1" "[1, 1, 1, 1]"]
        check_card_presence_fails_closed [of 0 "[1, 0, 0, 1]"]
  by (simp add: NUM_PRESENCE_GPIOS_def check_card_presence_ok)

section \<open>Properties of the debounce engine and of the event loop\<close>

lemma wait_early: "ns < timeout \<Longrightarrow> gpiod_line_event_wait_bulk (Some timeout) (Edge_after ns) = 1"
  by (simp add: gpiod_line_event_wait_bulk_def)

lemma wait_quiet: "timeout \<le> ns \<Longrightarrow> gpiod_line_event_wait_bulk (Some timeout) (Edge_after ns) = 0"
  by (simp add: gpiod_line_event_wait_bulk_def)

lemma wait_unbounded: "gpiod_line_event_wait_bulk None (Edge_after ns) = 1"
  by (simp add: gpiod_line_event_wait_bulk_def)

lemma wait_fails: "gpiod_line_event_wait_bulk tmo Fails = - 1"
  by (simp add: gpiod_line_event_wait_bulk_def)

lemma settle_early:
  "early step \<Longrightarrow> settle b (step # rest) = settle (check_card_presence (snd step)) rest"
  by (cases step rule: early.cases) (simp_all add: wait_early)

lemma settle_quiet_same:
  "quiet step \<Longrightarrow> check_card_presence (snd step) = b \<Longrightarrow> settle b (step # rest) = Settled b rest"
  by (cases step rule: quiet.cases) (auto simp add: wait_quiet)

lemma settle_quiet_differs:
  "quiet step \<Longrightarrow> check_card_presence (snd step) \<noteq> b \<Longrightarrow> settle b (step # rest) = settle b rest"
  by (cases step rule: quiet.cases) (auto simp add: wait_quiet)

lemma settle_fails: "settle b ((Fails, rd) # rest) = Exited 5"
  by (simp add: wait_fails)

lemma wait_for_edge:
  "wait_for_card_presence_change ((Edge_after ns, rd) # rest) = settle (check_card_presence rd) rest"
  by (simp add: wait_unbounded)

lemma wait_for_fails: "wait_for_card_presence_change ((Fails, rd) # rest) = Exited 4"
  by (simp add: wait_fails)

lemma early_or_quiet: "early (Edge_after ns, rd) \<or> quiet (Edge_after ns, rd)"
  by auto

lemma settle_bounces:
  "\<forall>step \<in> set bounces. early step \<Longrightarrow>
   settle (check_card_presence rd) (bounces @ rest) =
   settle (check_card_presence (snd (last ((a, rd) # bounces)))) rest"
proof (induction bounces arbitrary: rd a)
  case Nil
  then show ?case by simp
next
  case (Cons step bounces)
  obtain a' rd' where step: "step = (a', rd')" by (cases step)
  from Cons.prems have e: "early step" and all: "\<forall>step \<in> set bounces. early step"
    by simp_all
  from Cons.IH [OF all, of rd' a'] settle_early [OF e] step show ?case
    by simp
qed



lemma monitor_settled:
  "wait_for_card_presence_change steps = Settled d rest \<Longrightarrow>
   monitor prev steps =
     (monitor d rest)\<lparr>commands := (if d \<noteq> 0 then connect_card_reader else disconnect_card_reader)
                                    # commands (monitor d rest)\<rparr>"
  by (subst monitor.simps) (simp add: Let_def)

lemma monitor_blocked:
  "wait_for_card_presence_change steps = Idle \<or> wait_for_card_presence_change steps = Settling b \<Longrightarrow>
   monitor prev steps = \<lparr>commands = [], debounced_presence_flags = prev, exit_status = None\<rparr>"
  by (subst monitor.simps) auto

lemma monitor_exited:
  "wait_for_card_presence_change steps = Exited n \<Longrightarrow>
   monitor prev steps = \<lparr>commands = [], debounced_presence_flags = prev, exit_status = Some n\<rparr>"
  by (subst monitor.simps) auto

lemma monitor_Nil:
  "monitor prev [] = \<lparr>commands = [], debounced_presence_flags = prev, exit_status = None\<rparr>"
  by (simp add: monitor_blocked)

lemma monitor_commands:
  "set (commands (monitor d steps)) \<subseteq> {connect_card_reader, disconnect_card_reader}"
proof (induction d steps rule: monitor.induct)
  case (1 debounced steps)
  show ?case
  proof (cases "wait_for_card_presence_change steps")
    case (Settled v rest)
    from "1.IH" [OF Settled] monitor_settled [OF Settled, of debounced] show ?thesis
      by auto
  next
    case (Exited n)
    then show ?thesis by (simp add: monitor_exited)
  next
    case Idle
    then show ?thesis by (simp add: monitor_blocked)
  next
    case (Settling b)
    then show ?thesis by (simp add: monitor_blocked [of _ b])
  qed
qed

lemma monitor_stable:
  "samples \<noteq> [] \<Longrightarrow>
   monitor d (concat (map (\<lambda>(g, q, rd). [(Edge_after g, rd), (Edge_after (timeout + q), rd)])
                samples)) =
     \<lparr>commands = map (\<lambda>(g, q, rd). if check_card_presence rd \<noteq> 0 then connect_card_reader
                                    else disconnect_card_reader) samples,
      debounced_presence_flags = check_card_presence (snd (snd (last samples))),
      exit_status = None\<rparr>"
proof (induction samples arbitrary: d)
  case Nil
  then show ?case by simp
next
  case (Cons sample samples)
  obtain g q rd where sample: "sample = (g, q, rd)" by (cases sample)
  let ?steps = "concat (map (\<lambda>(g, q, rd). [(Edge_after g, rd), (Edge_after (timeout + q), rd)])
                  samples)"
  have "wait_for_card_presence_change
          ((Edge_after g, rd) # (Edge_after (timeout + q), rd) # ?steps)
        = Settled (check_card_presence rd) ?steps"
    by (simp add: wait_unbounded wait_quiet)
  from monitor_settled [OF this, of d] sample
  have step: "monitor d (concat (map (\<lambda>(g, q, rd).
                  [(Edge_after g, rd), (Edge_after (timeout + q), rd)]) (sample # samples))) =
     (monitor (check_card_presence rd) ?steps)\<lparr>commands :=
        (if check_card_presence rd \<noteq> 0 then connect_card_reader else disconnect_card_reader)
        # commands (monitor (check_card_presence rd) ?steps)\<rparr>"
    by simp
  show ?case
  proof (cases "samples = []")
    case True
    with step sample show ?thesis by (simp add: monitor_Nil)
  next
    case False
    from Cons.IH [OF False, of "check_card_presence rd"] step False sample show ?thesis
      by simp
  qed
qed

lemma wait_bounces:
  assumes "\<forall>step \<in> set bounces. early step"
  shows "wait_for_card_presence_change ((Edge_after ns, rd) # bounces @ rest) =
         settle (check_card_presence (snd (last ((Edge_after ns, rd) # bounces)))) rest"
  using assms settle_bounces [of bounces rd rest "Edge_after ns"]
  by (simp add: wait_unbounded)

lemma main_started:
  "chip_found env \<Longrightarrow> get_lines_rc env = 0 \<Longrightarrow> request_events_rc env = 0 \<Longrightarrow>
   commands (main env) =
     (if check_card_presence (first_read env) \<noteq> 0 then [bind_card_reader, connect_card_reader]
      else [disconnect_card_reader])
     @ commands (monitor (check_card_presence (first_read env)) (waits env))"
  by (simp add: main_def Let_def)

lemma bind_is_not_authorize:
  "bind_card_reader \<noteq> connect_card_reader" "bind_card_reader \<noteq> disconnect_card_reader"
  "connect_card_reader \<noteq> disconnect_card_reader"
  by (simp_all add: bind_card_reader_def connect_card_reader_def disconnect_card_reader_def)

lemma monitor_never_binds: "bind_card_reader \<notin> set (commands (monitor d steps))"
  using monitor_commands [of d steps] bind_is_not_authorize by auto

lemma settle_candidate:
  "settle b steps = Settled v rest \<Longrightarrow>
   \<exists>used step. steps = used @ step # rest \<and> quiet step \<and> check_card_presence (snd step) = v \<and>
     v = (if filter early used = [] then b
          else check_card_presence (snd (last (filter early used))))"
proof (induction steps arbitrary: b)
  case Nil
  then show ?case by simp
next
  case (Cons step xs)
  obtain a rd where step: "step = (a, rd)" by (cases step)
  show ?case
  proof (cases a)
    case Fails
    with Cons.prems step show ?thesis by (simp add: wait_fails)
  next
    case (Edge_after ns)
    show ?thesis
    proof (cases "ns < timeout")
      case True
      then have e: "early step" using step Edge_after by simp
      from Cons.prems settle_early [OF e, of b xs] step
      have "settle (check_card_presence rd) xs = Settled v rest" by simp
      from Cons.IH [OF this] obtain used s
        where u: "xs = used @ s # rest" "quiet s" "check_card_presence (snd s) = v"
          "v = (if filter early used = [] then check_card_presence rd
                else check_card_presence (snd (last (filter early used))))"
        by blast
      from u e step have "step # xs = (step # used) @ s # rest \<and> quiet s
          \<and> check_card_presence (snd s) = v
          \<and> v = (if filter early (step # used) = [] then b
                   else check_card_presence (snd (last (filter early (step # used)))))"
        by simp
      then show ?thesis by blast
    next
      case late: False
      then have q: "quiet step" and ne: "\<not> early step" using step Edge_after by simp_all
      show ?thesis
      proof (cases "b = check_card_presence rd")
        case True
        with Cons.prems settle_quiet_same [OF q, of b xs] step have "v = b" "rest = xs"
          by simp_all
        with True q step have "step # xs = [] @ step # rest \<and> quiet step
            \<and> check_card_presence (snd step) = v
            \<and> v = (if filter early [] = [] then b
                     else check_card_presence (snd (last (filter early []))))"
          by simp
        then show ?thesis by blast
      next
        case False
        with Cons.prems settle_quiet_differs [OF q, of b xs] step
        have "settle b xs = Settled v rest" by simp
        from Cons.IH [OF this] obtain used s
          where u: "xs = used @ s # rest" "quiet s" "check_card_presence (snd s) = v"
            "v = (if filter early used = [] then b
                  else check_card_presence (snd (last (filter early used))))"
          by blast
        from u ne have "step # xs = (step # used) @ s # rest \<and> quiet s
            \<and> check_card_presence (snd s) = v
            \<and> v = (if filter early (step # used) = [] then b
                     else check_card_presence (snd (last (filter early (step # used)))))"
          by simp
        then show ?thesis by blast
      qed
    qed
  qed
qed

lemma wait_candidate:
  assumes settled: "wait_for_card_presence_change steps = Settled v rest"
  shows "\<exists>first used step. steps = first # used @ step # rest \<and> quiet step
           \<and> check_card_presence (snd step) = v
           \<and> v = check_card_presence (snd (last (first # filter early used)))"
proof (cases steps)
  case Nil
  with settled show ?thesis by simp
next
  case (Cons first xs)
  obtain a rd where first: "first = (a, rd)" by (cases first)
  from settled Cons first have "settle (check_card_presence rd) xs = Settled v rest"
    by (simp split: if_splits)
  from settle_candidate [OF this] obtain used s
    where u: "xs = used @ s # rest" "quiet s" "check_card_presence (snd s) = v"
      "v = (if filter early used = [] then check_card_presence rd
            else check_card_presence (snd (last (filter early used))))"
    by blast
  from u Cons first have "steps = first # used @ s # rest \<and> quiet s
      \<and> check_card_presence (snd s) = v
      \<and> v = check_card_presence (snd (last (first # filter early used)))"
    by simp
  then show ?thesis by blast
qed


section \<open>Claims about the debounce engine and the event loop\<close>

text \<open>
  Claim C3, as stated, fails. The engine compares the sample taken at a timeout with
  the candidate it took after the last edge and never replaces the candidate at a
  timeout. So the samples 0001, 0010, 0010, each 500 ms after the one before (the
  first after an edge, the other two at timeouts), commit nothing: the engine keeps
  settling with the candidate 0001 and the debounced state stays what it was, not the
  last sample. And after two edges less than 500 ms apart with the samples 0001 and
  0010, a timeout that samples 0100 followed by a timeout that samples 0010 commits
  0010 at once, although the sample changed at that very step.
\<close>

theorem stale_candidate_misses_last_sample_counterexample:
  "wait_for_card_presence_change
     [(Edge_after 0, 0, [1, 0, 0, 0]), (Edge_after 500000000, 0, [0, 1, 0, 0]),
      (Edge_after 500000000, 0, [0, 1, 0, 0])] = Settling 1 \<and>
   debounced_presence_flags
     (monitor 0 [(Edge_after 0, 0, [1, 0, 0, 0]), (Edge_after 500000000, 0, [0, 1, 0, 0]),
                 (Edge_after 500000000, 0, [0, 1, 0, 0])]) = 0 \<and>
   check_card_presence (0, [0, 1, 0, 0]) = 2 \<and>
   wait_for_card_presence_change
     [(Edge_after 0, 0, [1, 0, 0, 0]), (Edge_after 1000, 0, [0, 1, 0, 0]),
      (Edge_after 500000000, 0, [0, 0, 1, 0]), (Edge_after 500000000, 0, [0, 1, 0, 0])]
     = Settled 2 [] \<and>
   check_card_presence (0, [0, 0, 1, 0]) = 4"
proof -
  have w: "wait_for_card_presence_change
     [(Edge_after 0, 0, [1, 0, 0, 0]), (Edge_after 500000000, 0, [0, 1, 0, 0]),
      (Edge_after 500000000, 0, [0, 1, 0, 0])] = Settling 1"
    by (simp add: gpiod_line_event_wait_bulk_def timeout_def check_card_presence_ok)
  have "wait_for_card_presence_change
     [(Edge_after 0, 0, [1, 0, 0, 0]), (Edge_after 1000, 0, [0, 1, 0, 0]),
      (Edge_after 500000000, 0, [0, 0, 1, 0]), (Edge_after 500000000, 0, [0, 1, 0, 0])]
     = Settled 2 []"
    by (simp add: gpiod_line_event_wait_bulk_def timeout_def check_card_presence_ok)
  with w monitor_blocked [of _ 1 0] show ?thesis
    by (simp add: check_card_presence_ok)
qed

text \<open>
  Claim C3, amended. The timeout of the settling wait is 500000000 ns. A sample that
  is followed by 500 ms of stability is a step on which an edge arrives and the sample
  is taken, followed by a wait that runs its 500 ms without an edge and samples the
  same. For every non-empty sequence of such
  samples the loop ends with \<open>debounced_presence_flags\<close> equal to the last sample.
  While edges keep arriving less than 500 ms apart the engine commits nothing and holds
  the sample taken after the newest edge as its candidate; on the first wait after
  them that runs 500 ms without an edge it commits when the sample taken then equals
  that candidate, and otherwise keeps settling with the candidate unchanged. Whenever
  the engine commits, it does so on a wait that ran the full 500 ms without an edge,
  and the committed value is both the sample taken on that step and the sample taken
  after the most recent edge.
\<close>

theorem debounce_commits_last_stable_sample:
  "timeout = 500000000 \<and>
   (samples \<noteq> [] \<longrightarrow>
      debounced_presence_flags
        (monitor d (concat (map (\<lambda>(g, q, rd). [(Edge_after g, rd),
                                               (Edge_after (timeout + q), rd)]) samples)))
        = check_card_presence (snd (snd (last samples)))) \<and>
   ((\<forall>step \<in> set bounces. early step) \<longrightarrow>
      wait_for_card_presence_change ((Edge_after ns, rd) # bounces) =
        Settling (check_card_presence (snd (last ((Edge_after ns, rd) # bounces)))) \<and>
      (quiet final \<longrightarrow>
         wait_for_card_presence_change ((Edge_after ns, rd) # bounces @ [final]) =
           (if check_card_presence (snd final)
                 = check_card_presence (snd (last ((Edge_after ns, rd) # bounces)))
            then Settled (check_card_presence (snd final)) []
            else Settling (check_card_presence (snd (last ((Edge_after ns, rd) # bounces))))))) \<and>
   (wait_for_card_presence_change steps = Settled v rest \<longrightarrow>
      (\<exists>first used step. steps = first # used @ step # rest \<and> quiet step \<and>
         check_card_presence (snd step) = v \<and>
         v = check_card_presence (snd (last (first # filter early used)))))"
proof (intro conjI impI)
  show "timeout = 500000000" by (simp add: timeout_def)
next
  assume "samples \<noteq> []"
  then show "debounced_presence_flags
        (monitor d (concat (map (\<lambda>(g, q, rd). [(Edge_after g, rd),
                                               (Edge_after (timeout + q), rd)]) samples)))
        = check_card_presence (snd (snd (last samples)))"
    by (simp add: monitor_stable)
next
  assume a: "\<forall>step \<in> set bounces. early step"
  then show "wait_for_card_presence_change ((Edge_after ns, rd) # bounces) =
        Settling (check_card_presence (snd (last ((Edge_after ns, rd) # bounces))))"
    using wait_bounces [of bounces ns rd "[]"] by simp
next
  assume a: "\<forall>step \<in> set bounces. early step" and q: "quiet final"
  from a have "wait_for_card_presence_change ((Edge_after ns, rd) # bounces @ [final]) =
               settle (check_card_presence (snd (last ((Edge_after ns, rd) # bounces)))) [final]"
    using wait_bounces [of bounces ns rd "[final]"] by simp
  then show "wait_for_card_presence_change ((Edge_after ns, rd) # bounces @ [final]) =
           (if check_card_presence (snd final)
                 = check_card_presence (snd (last ((Edge_after ns, rd) # bounces)))
            then Settled (check_card_presence (snd final)) []
            else Settling (check_card_presence (snd (last ((Edge_after ns, rd) # bounces)))))"
    using settle_quiet_same [OF q, of _ "[]"] settle_quiet_differs [OF q, of _ "[]"]
    by (cases "check_card_presence (snd final)
                 = check_card_presence (snd (last ((Edge_after ns, rd) # bounces)))")
       (simp_all del: wait_for_card_presence_change.simps last.simps)
next
  assume "wait_for_card_presence_change steps = Settled v rest"
  then show "\<exists>first used step. steps = first # used @ step # rest \<and> quiet step \<and>
         check_card_presence (snd step) = v \<and>
         v = check_card_presence (snd (last (first # filter early used)))"
    by (rule wait_candidate)
qed

theorem debounce_commits_last_stable_sample_witness:
  "debounced_presence_flags
     (monitor 0 [(Edge_after 7, 0, [1, 0, 0, 0]), (Edge_after (timeout + 0), 0, [1, 0, 0, 0]),
                 (Edge_after 9, 0, [0, 0, 0, 0]), (Edge_after (timeout + 5), 0, [0, 0, 0, 0]),
                 (Edge_after 0, 0, [0, 0, 0, 1]), (Edge_after (timeout + 1), 0, [0, 0, 0, 1])])
     = 8 \<and>
   wait_for_card_presence_change
     [(Edge_after 3, 0, [1, 0, 0, 0]), (Edge_after 1000, 0, [0, 0, 0, 0]),
      (Edge_after 2000, 0, [1, 0, 0, 0])] = Settling 1 \<and>
   wait_for_card_presence_change
     [(Edge_after 3, 0, [1, 0, 0, 0]), (Edge_after 1000, 0, [0, 0, 0, 0]),
      (Edge_after 2000, 0, [1, 0, 0, 0]), (Edge_after timeout, 0, [1, 0, 0, 0])]
     = Settled 1 [] \<and>
   (\<exists>first used step.
      [(Edge_after 3, 0, [1, 0, 0, 0]), (Edge_after 1000, 0, [0, 0, 0, 0]),
       (Edge_after 2000, 0, [1, 0, 0, 0]), (Edge_after timeout, 0, [1, 0, 0, 0])]
        = first # used @ [step] \<and> quiet step \<and> check_card_presence (snd step) = 1 \<and>
      (1 :: 8 word) = check_card_presence (snd (last (first # filter early used))))"
proof -
  have e: "\<forall>step \<in> set [(Edge_after 1000, 0, [0, 0, 0, 0]), (Edge_after 2000, 0, [1, 0, 0, 0])].
             early step"
    by (simp add: timeout_def)
  have q: "quiet (Edge_after timeout, 0, [1, 0, 0, 0])"
    by simp
  have w: "wait_for_card_presence_change
     [(Edge_after 3, 0, [1, 0, 0, 0]), (Edge_after 1000, 0, [0, 0, 0, 0]),
      (Edge_after 2000, 0, [1, 0, 0, 0]), (Edge_after timeout, 0, [1, 0, 0, 0])]
     = Settled 1 []"
    by (simp add: gpiod_line_event_wait_bulk_def timeout_def check_card_presence_ok)
  have s: "[(7 :: nat, 0 :: nat, (0 :: int, [1, 0, 0, 0 :: int])), (9, 5, (0, [0, 0, 0, 0])),
            (0, 1, (0, [0, 0, 0, 1]))] \<noteq> []"
    by simp
  show ?thesis
    using debounce_commits_last_stable_sample
            [where samples = "[(7, 0, (0, [1, 0, 0, 0])), (9, 5, (0, [0, 0, 0, 0])),
                               (0, 1, (0, [0, 0, 0, 1]))]"
               and d = 0 and ns = 3 and rd = "(0, [1, 0, 0, 0])"
               and bounces = "[(Edge_after 1000, 0, [0, 0, 0, 0]),
                               (Edge_after 2000, 0, [1, 0, 0, 0])]"
               and final = "(Edge_after timeout, 0, [1, 0, 0, 0])"
               and steps = "[(Edge_after 3, 0, [1, 0, 0, 0]), (Edge_after 1000, 0, [0, 0, 0, 0]),
                             (Edge_after 2000, 0, [1, 0, 0, 0]),
                             (Edge_after timeout, 0, [1, 0, 0, 0])]"
               and v = 1 and rest = "[]"]
          e q w s
    by (simp add: check_card_presence_ok)
qed

text \<open>
  Claim C4, as stated, fails. With the candidate 1, a wait that times out on the fresh
  sample 2 leaves the candidate at 1: a second timeout on the sample 2 does not commit
  2, and a second timeout on the sample 1 commits 1.
\<close>

theorem stale_candidate_counterexample:
  "check_card_presence (0, [0, 1, 0, 0]) = 2 \<and>
   settle 1 [(Edge_after 500000000, 0, [0, 1, 0, 0])] = Settling 1 \<and>
   settle 1 [(Edge_after 500000000, 0, [0, 1, 0, 0])] \<noteq> Settling 2 \<and>
   settle 1 [(Edge_after 500000000, 0, [0, 1, 0, 0]), (Edge_after 500000000, 0, [0, 1, 0, 0])]
     \<noteq> Settled 2 [] \<and>
   settle 1 [(Edge_after 500000000, 0, [0, 1, 0, 0]), (Edge_after 500000000, 0, [1, 0, 0, 0])]
     = Settled 1 []"
  by (simp add: gpiod_line_event_wait_bulk_def timeout_def check_card_presence_ok)

text \<open>
  Claim C4, amended. In the settling loop, when a wait runs its 500 ms without an edge
  and the fresh sample differs from the candidate, the engine keeps the candidate as it
  is and keeps waiting: the next timeout is compared against the same candidate. The
  candidate changes only when a wait returns with an edge, and then to the sample
  taken after it.
\<close>

theorem timeout_keeps_candidate:
  "quiet step \<Longrightarrow> check_card_presence (snd step) \<noteq> bouncy_state \<Longrightarrow>
   settle bouncy_state [step] = Settling bouncy_state \<and>
   settle bouncy_state (step # rest) = settle bouncy_state rest \<and>
   (early next_step \<longrightarrow> settle bouncy_state (step # next_step # rest)
                          = settle (check_card_presence (snd next_step)) rest)"
  using settle_quiet_differs [of step bouncy_state] settle_early [of next_step bouncy_state rest]
  by simp

theorem timeout_keeps_candidate_witness:
  "quiet (Edge_after timeout, 0, [0, 1, 0, 0]) \<and>
   check_card_presence (0, [0, 1, 0, 0]) \<noteq> 1 \<and>
   early (Edge_after 1000, 0, [0, 1, 0, 0]) \<and>
   settle 1 [(Edge_after timeout, 0, [0, 1, 0, 0])] = Settling 1 \<and>
   settle 1 [(Edge_after timeout, 0, [0, 1, 0, 0]), (Edge_after timeout, 0, [1, 0, 0, 0])]
     = Settled 1 [] \<and>
   settle 1 [(Edge_after timeout, 0, [0, 1, 0, 0]), (Edge_after 1000, 0, [0, 1, 0, 0]),
             (Edge_after timeout, 0, [0, 1, 0, 0])] = Settled 2 []"
  using timeout_keeps_candidate
          [where step = "(Edge_after timeout, 0, [0, 1, 0, 0])" and bouncy_state = 1
             and rest = "[(Edge_after timeout, 0, [1, 0, 0, 0])]"
             and next_step = "(Edge_after 1000, 0, [0, 1, 0, 0])"]
  by (simp add: gpiod_line_event_wait_bulk_def timeout_def check_card_presence_ok)




text \<open>
  Claim C7. Once the three requests to the GPIO library have succeeded, the commands of
  the process are: for a non-zero first sample the bind command once (\<open>echo\<close> of the
  interface \<open>1-1.4:1.0\<close> into the bind file of the usb-storage driver) and then
  \<open>echo 1\<close> into the authorization file, for the first sample zero \<open>echo 0\<close> into
  the authorization file only; then the commands of the loop. The loop never gives the
  bind command: each of its commands is \<open>echo 1\<close> or \<open>echo 0\<close> into the
  authorization file, and for each value it settles on it gives \<open>echo 1\<close> when the
  value is non-zero and \<open>echo 0\<close> when it is zero.
\<close>

theorem bind_only_at_startup:
  "(chip_found env \<and> get_lines_rc env = 0 \<and> request_events_rc env = 0 \<longrightarrow>
      commands (main env) =
        (if check_card_presence (first_read env) \<noteq> 0
         then [''echo 1-1.4:1.0 > /sys/bus/usb/drivers/usb-storage/bind 2>/dev/null'',
               ''echo 1 > /sys/bus/usb/devices/1-1.4/authorized'']
         else [''echo 0 > /sys/bus/usb/devices/1-1.4/authorized''])
        @ commands (monitor (check_card_presence (first_read env)) (waits env))) \<and>
   ''echo 1-1.4:1.0 > /sys/bus/usb/drivers/usb-storage/bind 2>/dev/null''
     \<notin> set (commands (monitor d steps)) \<and>
   set (commands (monitor d steps))
     \<subseteq> {''echo 1 > /sys/bus/usb/devices/1-1.4/authorized'',
         ''echo 0 > /sys/bus/usb/devices/1-1.4/authorized''} \<and>
   (wait_for_card_presence_change steps = Settled v rest \<longrightarrow>
      commands (monitor d steps) =
        (if v \<noteq> 0 then ''echo 1 > /sys/bus/usb/devices/1-1.4/authorized''
         else ''echo 0 > /sys/bus/usb/devices/1-1.4/authorized'')
        # commands (monitor v rest))"
proof (intro conjI impI)
  assume "chip_found env \<and> get_lines_rc env = 0 \<and> request_events_rc env = 0"
  then show "commands (main env) =
        (if check_card_presence (first_read env) \<noteq> 0
         then [''echo 1-1.4:1.0 > /sys/bus/usb/drivers/usb-storage/bind 2>/dev/null'',
               ''echo 1 > /sys/bus/usb/devices/1-1.4/authorized'']
         else [''echo 0 > /sys/bus/usb/devices/1-1.4/authorized''])
        @ commands (monitor (check_card_presence (first_read env)) (waits env))"
    using main_started [of env]
    by (simp add: bind_card_reader_def connect_card_reader_def disconnect_card_reader_def)
next
  show "''echo 1-1.4:1.0 > /sys/bus/usb/drivers/usb-storage/bind 2>/dev/null''
     \<notin> set (commands (monitor d steps))"
    using monitor_never_binds [of d steps] by (simp add: bind_card_reader_def)
next
  show "set (commands (monitor d steps))
     \<subseteq> {''echo 1 > /sys/bus/usb/devices/1-1.4/authorized'',
         ''echo 0 > /sys/bus/usb/devices/1-1.4/authorized''}"
    using monitor_commands [of d steps]
    by (simp add: connect_card_reader_def disconnect_card_reader_def)
next
  assume "wait_for_card_presence_change steps = Settled v rest"
  from monitor_settled [OF this, of d]
  show "commands (monitor d steps) =
        (if v \<noteq> 0 then ''echo 1 > /sys/bus/usb/devices/1-1.4/authorized''
         else ''echo 0 > /sys/bus/usb/devices/1-1.4/authorized'')
        # commands (monitor v rest)"
    by (simp add: connect_card_reader_def disconnect_card_reader_def)
qed

theorem bind_only_at_startup_witness:
  "commands (main \<lparr>chip_found = True, get_lines_rc = 0, request_events_rc = 0,
     quirks_file = \<lparr>quirks_content = None, quirks_writable = True, heap_before = NUL\<rparr>,
     first_read = (0, [0, 0, 1, 0]),
     waits = [(Edge_after 5, 0, [0, 0, 0, 0]), (Edge_after timeout, 0, [0, 0, 0, 0])]\<rparr>)
   = [''echo 1-1.4:1.0 > /sys/bus/usb/drivers/usb-storage/bind 2>/dev/null'',
      ''echo 1 > /sys/bus/usb/devices/1-1.4/authorized'',
      ''echo 0 > /sys/bus/usb/devices/1-1.4/authorized''] \<and>
   commands (main \<lparr>chip_found = True, get_lines_rc = 0, request_events_rc = 0,
     quirks_file = \<lparr>quirks_content = None, quirks_writable = True, heap_before = NUL\<rparr>,
     first_read = (0, [0, 0, 0, 0]),
     waits = [(Edge_after 5, 0, [0, 1, 0, 0]), (Edge_after timeout, 0, [0, 1, 0, 0])]\<rparr>)
   = [''echo 0 > /sys/bus/usb/devices/1-1.4/authorized'',
      ''echo 1 > /sys/bus/usb/devices/1-1.4/authorized'']"
proof -
  have w1: "wait_for_card_presence_change
              [(Edge_after 5, 0, [0, 0, 0, 0]), (Edge_after timeout, 0, [0, 0, 0, 0])]
              = Settled 0 []"
    by (simp add: gpiod_line_event_wait_bulk_def timeout_def check_card_presence_ok)
  have w2: "wait_for_card_presence_change
              [(Edge_after 5, 0, [0, 1, 0, 0]), (Edge_after timeout, 0, [0, 1, 0, 0])]
              = Settled 2 []"
    by (simp add: gpiod_line_event_wait_bulk_def timeout_def check_card_presence_ok)
  show ?thesis
    using bind_only_at_startup
            [where env = "\<lparr>chip_found = True, get_lines_rc = 0, request_events_rc = 0,
                  quirks_file = \<lparr>quirks_content = None, quirks_writable = True,
                                 heap_before = NUL\<rparr>,
                  first_read = (0, [0, 0, 1, 0]),
                  waits = [(Edge_after 5, 0, [0, 0, 0, 0]),
                           (Edge_after timeout, 0, [0, 0, 0, 0])]\<rparr>"
               and d = 4
               and steps = "[(Edge_after 5, 0, [0, 0, 0, 0]),
                             (Edge_after timeout, 0, [0, 0, 0, 0])]"
               and v = 0 and rest = "[]"]
          bind_only_at_startup
            [where env = "\<lparr>chip_found = True, get_lines_rc = 0, request_events_rc = 0,
                  quirks_file = \<lparr>quirks_content = None, quirks_writable = True,
                                 heap_before = NUL\<rparr>,
                  first_read = (0, [0, 0, 0, 0]),
                  waits = [(Edge_after 5, 0, [0, 1, 0, 0]),
                           (Edge_after timeout, 0, [0, 1, 0, 0])]\<rparr>"
               and d = 0
               and steps = "[(Edge_after 5, 0, [0, 1, 0, 0]),
                             (Edge_after timeout, 0, [0, 1, 0, 0])]"
               and v = 2 and rest = "[]"]
          w1 w2
    by (simp add: check_card_presence_ok monitor_Nil)
qed

text \<open>
  Claim C10. Each time the engine settles, the loop gives exactly one command before it
  waits again, whatever the debounced value was before, also when the value it settles
  on is the value it had: \<open>echo 1\<close> into the authorization file when the committed
  bitmask is non-zero and \<open>echo 0\<close> into it when the bitmask is zero.
\<close>

theorem one_write_per_settling_episode:
  "wait_for_card_presence_change steps = Settled d rest \<Longrightarrow>
   commands (monitor prev steps) =
     (if d \<noteq> 0 then ''echo 1 > /sys/bus/usb/devices/1-1.4/authorized''
      else ''echo 0 > /sys/bus/usb/devices/1-1.4/authorized'') # commands (monitor d rest) \<and>
   commands (monitor d steps) =
     (if d \<noteq> 0 then ''echo 1 > /sys/bus/usb/devices/1-1.4/authorized''
      else ''echo 0 > /sys/bus/usb/devices/1-1.4/authorized'') # commands (monitor d rest) \<and>
   debounced_presence_flags (monitor prev steps) = debounced_presence_flags (monitor d rest)"
  by (simp add: monitor_settled connect_card_reader_def disconnect_card_reader_def)

theorem one_write_per_settling_episode_witness:
  "wait_for_card_presence_change
     [(Edge_after 5, 0, [0, 0, 0, 0]), (Edge_after 1000, 0, [1, 0, 0, 0]),
      (Edge_after timeout, 0, [1, 0, 0, 0])] = Settled 1 [] \<and>
   commands (monitor 1 [(Edge_after 5, 0, [0, 0, 0, 0]), (Edge_after 1000, 0, [1, 0, 0, 0]),
                        (Edge_after timeout, 0, [1, 0, 0, 0])])
     = [''echo 1 > /sys/bus/usb/devices/1-1.4/authorized''] \<and>
   debounced_presence_flags
     (monitor 1 [(Edge_after 5, 0, [0, 0, 0, 0]), (Edge_after 1000, 0, [1, 0, 0, 0]),
                 (Edge_after timeout, 0, [1, 0, 0, 0])]) = 1 \<and>
   commands (monitor 1 [(Edge_after 5, 0, [1, 0, 0, 0]), (Edge_after 1000, 0, [0, 0, 0, 0]),
                        (Edge_after timeout, 0, [0, 0, 0, 0])])
     = [''echo 0 > /sys/bus/usb/devices/1-1.4/authorized'']"
proof -
  have w: "wait_for_card_presence_change
      [(Edge_after 5, 0, [0, 0, 0, 0]), (Edge_after 1000, 0, [1, 0, 0, 0]),
       (Edge_after timeout, 0, [1, 0, 0, 0])] = Settled 1 []"
    by (simp add: gpiod_line_event_wait_bulk_def timeout_def check_card_presence_ok)
  have w0: "wait_for_card_presence_change
      [(Edge_after 5, 0, [1, 0, 0, 0]), (Edge_after 1000, 0, [0, 0, 0, 0]),
       (Edge_after timeout, 0, [0, 0, 0, 0])] = Settled 0 []"
    by (simp add: gpiod_line_event_wait_bulk_def timeout_def check_card_presence_ok)
  from one_write_per_settling_episode [OF w, of 1] one_write_per_settling_episode [OF w0, of 1] w
  show ?thesis
    by (simp add: monitor_Nil)
qed

section \<open>Properties of the quirk list editor\<close>

lemma strstr_Some_decomp:
  "strstr t e = Some n \<Longrightarrow> \<exists>a b. t = a @ e @ b \<and> length a = n"
proof (induction t arbitrary: n)
  case Nil
  then show ?case by (simp split: if_splits)
next
  case (Cons c cs)
  show ?case
  proof (cases "prefix e (c # cs)")
    case True
    with Cons.prems have "n = 0" by simp
    moreover from True obtain b where "c # cs = e @ b" by (auto simp add: prefix_def)
    ultimately have "c # cs = [] @ e @ b \<and> length ([] :: string) = n" by simp
    then show ?thesis by blast
  next
    case False
    with Cons.prems obtain m where m: "strstr cs e = Some m" "n = Suc m" by auto
    from Cons.IH [OF m(1)] obtain a b where "cs = a @ e @ b" "length a = m" by blast
    with m(2) have "c # cs = (c # a) @ e @ b \<and> length (c # a) = n" by simp
    then show ?thesis by blast
  qed
qed

lemma strstr_None_iff: "strstr t e = None \<longleftrightarrow> \<not> sublist e t"
  by (induction t) (auto simp add: sublist_Cons_right)

lemma strstr_first:
  "strstr t e = Some n \<Longrightarrow> m < n \<Longrightarrow> \<not> prefix e (drop m t)"
proof (induction t arbitrary: n m)
  case Nil
  then show ?case by (simp split: if_splits)
next
  case (Cons c cs)
  from Cons.prems have notp: "\<not> prefix e (c # cs)" by (auto split: if_splits)
  with Cons.prems obtain k where k: "strstr cs e = Some k" "n = Suc k" by auto
  show ?case
  proof (cases m)
    case 0
    with notp show ?thesis by simp
  next
    case (Suc j)
    with Cons.prems k have "j < k" by simp
    from Cons.IH [OF k(1) this] Suc show ?thesis by simp
  qed
qed

lemma strstr_eqI:
  "prefix e (drop n t) \<Longrightarrow> n \<le> length t \<Longrightarrow> (\<And>m. m < n \<Longrightarrow> \<not> prefix e (drop m t)) \<Longrightarrow>
   strstr t e = Some n"
proof (induction t arbitrary: n)
  case Nil
  then show ?case by simp
next
  case (Cons c cs)
  show ?case
  proof (cases n)
    case 0
    with Cons.prems show ?thesis by simp
  next
    case (Suc k)
    with Cons.prems(3) [of 0] have notp: "\<not> prefix e (c # cs)" by simp
    have "strstr cs e = Some k"
    proof (rule Cons.IH)
      from Cons.prems(1) Suc show "prefix e (drop k cs)" by simp
      from Cons.prems(2) Suc show "k \<le> length cs" by simp
      fix m assume "m < k"
      with Cons.prems(3) [of "Suc m"] Suc show "\<not> prefix e (drop m cs)" by simp
    qed
    with notp Suc show ?thesis by simp
  qed
qed

lemma c_str_terminated: "NUL \<notin> set text \<Longrightarrow> c_str (text @ NUL # tail) = text"
  by (simp add: c_str_def takeWhile_append)

lemma c_str_edited:
  "NUL \<notin> set a \<Longrightarrow> NUL \<notin> set b \<Longrightarrow> c_str (a @ b @ NUL # tail) = a @ b"
  using c_str_terminated [of "a @ b" tail] by simp

lemma take_strlen: "take (strlen mem) mem = c_str mem"
  by (simp add: strlen_def c_str_def takeWhile_eq_take [symmetric])

lemma c_str_prefix: "prefix (c_str mem) mem"
  by (simp add: c_str_def takeWhile_is_prefix)

lemma remove_quirk_found:
  assumes found: "strstr (a @ e @ b) e = Some (length a)" and nul: "NUL \<notin> set (a @ e @ b)"
  shows "remove_quirk e before (a @ e @ b @ [NUL]) =
     Some (tl (if (before # a) ! length a = COMMA
               then memmove (before # a @ e @ b @ [NUL]) (length a) (Suc (length a + length e))
                      (Suc (length b))
               else if (b @ [NUL]) ! 0 = COMMA
               then memmove (before # a @ e @ b @ [NUL]) (Suc (length a))
                      (Suc (Suc (length a + length e))) (length b)
               else memmove (before # a @ e @ b @ [NUL]) (Suc (length a))
                      (Suc (length a + length e)) (Suc (length b))))"
proof -
  have cs: "c_str (a @ e @ b @ [NUL]) = a @ e @ b"
    using c_str_terminated [OF nul, of "[]"] by simp
  have before: "(before # a @ e @ b @ [NUL]) ! (Suc (length a) - 1) = (before # a) ! length a"
    by (cases a rule: rev_cases) (simp_all add: nth_append)
  have after: "(before # a @ e @ b @ [NUL]) ! (Suc (length a) + length e) = (b @ [NUL]) ! 0"
    by (simp add: nth_append)
  show ?thesis
    unfolding remove_quirk_def cs found
    by (simp only: option.case Let_def before after) simp
qed

lemma removeEntry_comma_before:
  assumes "strstr (a @ COMMA # e @ b) e = Some (Suc (length a))" "NUL \<notin> set (a @ COMMA # e @ b)"
  shows "removeEntry before (a @ COMMA # e @ b) e = a @ b"
proof -
  from assms have f: "strstr ((a @ [COMMA]) @ e @ b) e = Some (length (a @ [COMMA]))"
    and n: "NUL \<notin> set ((a @ [COMMA]) @ e @ b)" by simp_all
  show ?thesis
    using n remove_quirk_found [OF f n, of before]
    by (simp add: removeEntry_def memmove_def nth_append c_str_edited)
qed

lemma removeEntry_comma_after:
  assumes f: "strstr (a @ e @ COMMA # b) e = Some (length a)"
    and n: "NUL \<notin> set (a @ e @ COMMA # b)"
    and nb: "last (before # a) \<noteq> COMMA"
  shows "removeEntry before (a @ e @ COMMA # b) e = a @ b"
proof -
  have idx: "(before # a) ! length a = last (before # a)"
    by (cases a rule: rev_cases) (simp_all add: nth_append)
  show ?thesis
    using n remove_quirk_found [OF f n, of before] nb idx
    by (simp add: removeEntry_def memmove_def nth_append c_str_edited)
qed

lemma removeEntry_no_comma:
  assumes f: "strstr (a @ e @ b) e = Some (length a)"
    and n: "NUL \<notin> set (a @ e @ b)"
    and nb: "last (before # a) \<noteq> COMMA"
    and na: "b = [] \<or> hd b \<noteq> COMMA"
  shows "removeEntry before (a @ e @ b) e = a @ b"
proof -
  have idx: "(before # a) ! length a = last (before # a)"
    by (cases a rule: rev_cases) (simp_all add: nth_append)
  have after: "(b @ [NUL]) ! 0 \<noteq> COMMA"
    using na by (cases b) simp_all
  show ?thesis
    using n remove_quirk_found [OF f n, of before] nb idx after
    by (simp add: removeEntry_def memmove_def nth_append c_str_edited)
qed

lemma removeEntry_slip_followed:
  assumes f: "strstr (e @ c # b) e = Some 0"
    and n: "NUL \<notin> set (e @ c # b)"
  shows "removeEntry COMMA (e @ c # b) e = b"
proof -
  from f have f': "strstr ([] @ e @ c # b) e = Some (length ([] :: string))" by simp
  from n have n': "NUL \<notin> set ([] @ e @ c # b)" by simp
  show ?thesis
    using n c_str_edited [of "[]" b] remove_quirk_found [OF f' n', of COMMA]
    by (simp add: removeEntry_def memmove_def nth_append c_str_edited)
qed

lemma removeEntry_slip_sole:
  assumes f: "strstr e e = Some 0" and n: "NUL \<notin> set e"
  shows "removeEntry COMMA e e = e"
proof -
  from f have f': "strstr ([] @ e @ []) e = Some (length ([] :: string))" by simp
  from n have n': "NUL \<notin> set ([] @ e @ [])" by simp
  have "c_str (e @ [NUL]) = e"
    using c_str_terminated [of e "[]"] n by simp
  then show ?thesis
    using remove_quirk_found [OF f' n', of COMMA]
    by (simp add: removeEntry_def memmove_def nth_append c_str_edited)
qed

lemma removeEntry_policy:
  assumes found: "strstr text e = Some pos" and nul: "NUL \<notin> set text"
    and inside: "pos = 0 \<longrightarrow> before \<noteq> COMMA"
  shows "removeEntry before text e =
     (if 0 < pos \<and> text ! (pos - 1) = COMMA
      then take (pos - 1) text @ drop (pos + length e) text
      else if pos + length e < length text \<and> text ! (pos + length e) = COMMA
      then take pos text @ drop (Suc (pos + length e)) text
      else take pos text @ drop (pos + length e) text)"
proof -
  from strstr_Some_decomp [OF found] obtain a b
    where t_eq: "text = a @ e @ b" and pos: "length a = pos" by blast
  show ?thesis
  proof (cases "0 < pos \<and> text ! (pos - 1) = COMMA")
    case True
    with t_eq pos obtain a' where a: "a = a' @ [COMMA]"
      by (cases a rule: rev_cases) (auto simp add: nth_append)
    from found nul t_eq a pos
    have "removeEntry before (a' @ COMMA # e @ b) e = a' @ b"
      by (intro removeEntry_comma_before) auto
    with True t_eq a pos show ?thesis by auto
  next
    case False
    with t_eq pos inside have nb: "last (before # a) \<noteq> COMMA"
      by (cases a rule: rev_cases) (auto simp add: nth_append)
    show ?thesis
    proof (cases "pos + length e < length text \<and> text ! (pos + length e) = COMMA")
      case True
      with t_eq pos obtain b' where b: "b = COMMA # b'"
        by (cases b) (auto simp add: nth_append)
      from found nul t_eq b pos nb
      have "removeEntry before (a @ e @ COMMA # b') e = a @ b'"
        by (intro removeEntry_comma_after) auto
      with False True t_eq b pos show ?thesis by auto
    next
      case nc: False
      with t_eq pos have na: "b = [] \<or> hd b \<noteq> COMMA"
        by (cases b) (auto simp add: nth_append)
      from found nul t_eq pos nb na
      have "removeEntry before (a @ e @ b) e = a @ b"
        by (intro removeEntry_no_comma) auto
      with False nc t_eq pos show ?thesis by auto
    qed
  qed
qed

section \<open>Properties of comma-delimited lists\<close>

lemma join_commas_Cons: "es \<noteq> [] \<Longrightarrow> join_commas (e # es) = e @ COMMA # join_commas es"
  by (cases es) simp_all

lemma split_commas_not_Nil: "split_commas s \<noteq> []"
  by (induction s) (simp_all split: list.split)

lemma join_split_commas: "join_commas (split_commas s) = s"
proof (induction s)
  case Nil
  then show ?case by simp
next
  case (Cons c cs)
  obtain h t where sp: "split_commas cs = h # t"
    using split_commas_not_Nil [of cs] by (cases "split_commas cs") auto
  with Cons.IH have cs: "join_commas (h # t) = cs" by simp
  show ?case
  proof (cases "c = COMMA")
    case True
    with sp cs show ?thesis by (simp add: join_commas_Cons)
  next
    case False
    with sp cs show ?thesis by (cases t) auto
  qed
qed

lemma split_commas_free: "e \<in> set (split_commas s) \<Longrightarrow> COMMA \<notin> set e"
proof (induction s arbitrary: e)
  case Nil
  then show ?case by simp
next
  case (Cons c cs)
  obtain h t where sp: "split_commas cs = h # t"
    using split_commas_not_Nil [of cs] by (cases "split_commas cs") auto
  from Cons.IH [of h] sp have h: "COMMA \<notin> set h" by simp
  from Cons.IH sp have t: "\<And>x. x \<in> set t \<Longrightarrow> COMMA \<notin> set x" by simp
  from Cons.prems sp h t show ?case by (auto split: if_splits)
qed

lemma split_commas_entry: "COMMA \<notin> set e \<Longrightarrow> split_commas e = [e]"
  by (induction e) auto

lemma split_commas_append:
  "COMMA \<notin> set e \<Longrightarrow> split_commas (e @ COMMA # r) = e # split_commas r"
  by (induction e) auto

lemma split_join_commas:
  "es \<noteq> [] \<Longrightarrow> \<forall>e \<in> set es. COMMA \<notin> set e \<Longrightarrow> split_commas (join_commas es) = es"
proof (induction es rule: join_commas.induct)
  case 1
  then show ?case by simp
next
  case (2 e)
  then show ?case by (simp add: split_commas_entry)
next
  case (3 e x xs)
  then show ?case by (simp add: split_commas_append)
qed

lemma join_commas_Nil_iff:
  "\<forall>e \<in> set es. e \<noteq> [] \<Longrightarrow> join_commas es = [] \<longleftrightarrow> es = []"
  by (induction es rule: join_commas.induct) auto

lemma entries_join_commas:
  assumes "\<forall>e \<in> set es. e \<noteq> [] \<and> COMMA \<notin> set e"
  shows "entries (join_commas es) = es"
proof (cases "es = []")
  case True
  then show ?thesis by (simp add: entries_def)
next
  case False
  with assms have "join_commas es \<noteq> []" by (simp add: join_commas_Nil_iff)
  with assms False show ?thesis by (simp add: entries_def split_join_commas)
qed

lemma join_commas_append:
  "join_commas (xs @ y # ys) =
     (if xs = [] then [] else join_commas xs @ [COMMA]) @ y
     @ (if ys = [] then [] else COMMA # join_commas ys)"
proof (induction xs rule: join_commas.induct)
  case 1
  then show ?case by (cases ys) simp_all
next
  case (2 e)
  then show ?case by (cases ys) simp_all
next
  case (3 e x xs)
  then show ?case by simp
qed

lemma join_commas_append2:
  "join_commas (xs @ ys) =
     (if xs = [] then join_commas ys else if ys = [] then join_commas xs
      else join_commas xs @ COMMA # join_commas ys)"
proof (induction xs rule: join_commas.induct)
  case 1
  then show ?case by simp
next
  case (2 e)
  then show ?case by (cases ys) simp_all
next
  case (3 e x xs)
  then show ?case by simp
qed

lemma doubled_comma_Cons:
  "doubled_comma (a # s) \<longleftrightarrow> (s \<noteq> [] \<and> a = COMMA \<and> hd s = COMMA) \<or> doubled_comma s"
  by (cases s) auto

lemma doubled_comma_append:
  "doubled_comma (a @ b) \<longleftrightarrow>
     doubled_comma a \<or> doubled_comma b \<or> (a \<noteq> [] \<and> b \<noteq> [] \<and> last a = COMMA \<and> hd b = COMMA)"
proof (induction a)
  case Nil
  then show ?case by simp
next
  case (Cons c a)
  show ?case
  proof (cases "a = []")
    case True
    then show ?thesis by (cases b) auto
  next
    case False
    with Cons.IH show ?thesis
      by (auto simp add: doubled_comma_Cons)
  qed
qed

lemma comma_free_not_doubled: "COMMA \<notin> set e \<Longrightarrow> \<not> doubled_comma e"
  by (induction e rule: doubled_comma.induct) auto

lemma comma_free_ends:
  "e \<noteq> [] \<Longrightarrow> COMMA \<notin> set e \<Longrightarrow> hd e \<noteq> COMMA \<and> last e \<noteq> COMMA"
  by (metis hd_in_set last_in_set)

lemma join_commas_tidy:
  assumes "\<forall>e \<in> set es. e \<noteq> [] \<and> COMMA \<notin> set e"
  shows "\<not> stray_comma (join_commas es)"
proof -
  have "es \<noteq> [] \<Longrightarrow> \<forall>e \<in> set es. e \<noteq> [] \<and> COMMA \<notin> set e \<Longrightarrow>
        join_commas es \<noteq> [] \<and> hd (join_commas es) \<noteq> COMMA \<and> last (join_commas es) \<noteq> COMMA
        \<and> \<not> doubled_comma (join_commas es)"
  proof (induction es rule: join_commas.induct)
    case 1
    then show ?case by simp
  next
    case (2 e)
    then have "e \<noteq> []" "COMMA \<notin> set e" by simp_all
    then show ?case
      using comma_free_ends [of e] by (simp add: comma_free_not_doubled)
  next
    case (3 e x xs)
    then have e: "e \<noteq> []" "COMMA \<notin> set e" by simp_all
    from 3 have rest: "join_commas (x # xs) \<noteq> []" "hd (join_commas (x # xs)) \<noteq> COMMA"
      "last (join_commas (x # xs)) \<noteq> COMMA" "\<not> doubled_comma (join_commas (x # xs))"
      by simp_all
    from e have "hd e \<noteq> COMMA" "last e \<noteq> COMMA"
      using comma_free_ends [of e] by simp_all
    with e rest show ?case
      by (simp add: doubled_comma_append doubled_comma_Cons comma_free_not_doubled)
  qed
  with assms show ?thesis
    by (cases "es = []") (auto simp add: stray_comma_def)
qed

lemma prefix_before_separator:
  assumes "prefix e (d @ c # r)" "c \<notin> set e"
  shows "prefix e d"
proof -
  from assms(1) consider "prefix e d" | us where "e = d @ us" "prefix us (c # r)"
    by (auto simp add: prefix_append)
  then show ?thesis
  proof cases
    case 1
    then show ?thesis .
  next
    case 2
    with assms(2) have "us = []" by (cases us) auto
    with 2 show ?thesis by simp
  qed
qed

lemma sublist_around_separator:
  assumes "sublist e (x @ c # r)" "c \<notin> set e"
  shows "sublist e x \<or> sublist e r"
proof -
  from assms(1) consider "sublist e x" | "sublist e (c # r)"
    | e1 e2 where "e = e1 @ e2" "suffix e1 x" "prefix e2 (c # r)"
    by (auto simp add: sublist_append)
  then show ?thesis
  proof cases
    case 1
    then show ?thesis by simp
  next
    case 2
    then have "prefix e (c # r) \<or> sublist e r" by (simp add: sublist_Cons_right)
    moreover have "prefix e (c # r) \<Longrightarrow> e = []"
      using assms(2) by (cases e) auto
    ultimately show ?thesis by auto
  next
    case 3
    with assms(2) have "e2 = []" by (cases e2) auto
    with 3 have "suffix e x" by simp
    then show ?thesis by (auto intro: suffix_imp_sublist)
  qed
qed

lemma sublist_join_commas:
  "sublist e (join_commas xs) \<Longrightarrow> COMMA \<notin> set e \<Longrightarrow> e \<noteq> [] \<Longrightarrow> \<exists>x \<in> set xs. sublist e x"
proof (induction xs rule: join_commas.induct)
  case 1
  then show ?case by simp
next
  case (2 x)
  then show ?case by simp
next
  case (3 x y ys)
  from "3.prems"(1) have "sublist e (x @ COMMA # join_commas (y # ys))" by simp
  from sublist_around_separator [OF this "3.prems"(2)]
  show ?case
  proof
    assume "sublist e x"
    then show ?thesis by simp
  next
    assume "sublist e (join_commas (y # ys))"
    from "3.IH" [OF this "3.prems"(2,3)] show ?thesis by auto
  qed
qed

lemma strstr_after_entries:
  assumes e: "e \<noteq> []" "COMMA \<notin> set e"
    and xs: "\<forall>x \<in> set xs. \<not> sublist e x"
  shows "strstr (join_commas xs @ COMMA # e @ b) e = Some (Suc (length (join_commas xs)))"
proof (rule strstr_eqI)
  show "prefix e (drop (Suc (length (join_commas xs))) (join_commas xs @ COMMA # e @ b))"
    by simp
  show "Suc (length (join_commas xs)) \<le> length (join_commas xs @ COMMA # e @ b)"
    by simp
  fix m assume m: "m < Suc (length (join_commas xs))"
  show "\<not> prefix e (drop m (join_commas xs @ COMMA # e @ b))"
  proof
    assume "prefix e (drop m (join_commas xs @ COMMA # e @ b))"
    with m have "prefix e (drop m (join_commas xs) @ COMMA # e @ b)" by simp
    from prefix_before_separator [OF this e(2)]
    have "sublist e (drop m (join_commas xs))" by (rule prefix_imp_sublist)
    moreover have "sublist (drop m (join_commas xs)) (join_commas xs)"
      by (rule sublist_drop)
    ultimately have "sublist e (join_commas xs)"
      by (rule sublist_order.order.trans)
    from sublist_join_commas [OF this e(2,1)] xs show False by blast
  qed
qed

lemma strstr_at_start: "strstr (e @ b) e = Some 0"
  by (rule strstr_eqI) simp_all

lemma split_commas_hd_Nil: "hd (split_commas s) = [] \<longleftrightarrow> s = [] \<or> hd s = COMMA"
  by (cases s) (simp_all split: list.split)

lemma empty_entry_later:
  "[] \<in> set (tl (split_commas s)) \<Longrightarrow> s \<noteq> [] \<and> (last s = COMMA \<or> doubled_comma s)"
proof (induction s)
  case Nil
  then show ?case by simp
next
  case (Cons c cs)
  obtain h t where sp: "split_commas cs = h # t"
    using split_commas_not_Nil [of cs] by (cases "split_commas cs") auto
  show ?case
  proof (cases "c = COMMA")
    case True
    with Cons.prems sp have "h = [] \<or> [] \<in> set t" by auto
    then show ?thesis
    proof
      assume "h = []"
      with sp have "cs = [] \<or> hd cs = COMMA"
        using split_commas_hd_Nil [of cs] by simp
      with True show ?thesis by (cases cs) auto
    next
      assume "[] \<in> set t"
      with sp Cons.IH have "cs \<noteq> [] \<and> (last cs = COMMA \<or> doubled_comma cs)" by simp
      then show ?thesis by (cases cs) auto
    qed
  next
    case False
    with Cons.prems sp have "[] \<in> set t" by simp
    with sp Cons.IH have "cs \<noteq> [] \<and> (last cs = COMMA \<or> doubled_comma cs)" by simp
    then show ?thesis by (cases cs) auto
  qed
qed

lemma tidy_entries:
  assumes "\<not> stray_comma s" "e \<in> set (entries s)"
  shows "e \<noteq> [] \<and> COMMA \<notin> set e"
proof -
  from assms(2) have s: "s \<noteq> []" and e: "e \<in> set (split_commas s)"
    by (auto simp add: entries_def split: if_splits)
  obtain h t where sp: "split_commas s = h # t"
    using split_commas_not_Nil [of s] by (cases "split_commas s") auto
  have "[] \<notin> set (split_commas s)"
  proof
    assume "[] \<in> set (split_commas s)"
    with sp have "h = [] \<or> [] \<in> set t" by auto
    then show False
    proof
      assume "h = []"
      with sp s have "hd s = COMMA" using split_commas_hd_Nil [of s] by simp
      with s assms(1) show False by (simp add: stray_comma_def)
    next
      assume "[] \<in> set t"
      with sp have "[] \<in> set (tl (split_commas s))" by simp
      from empty_entry_later [OF this] assms(1) show False by (auto simp add: stray_comma_def)
    qed
  qed
  with e split_commas_free [OF e] show ?thesis by auto
qed

lemma entries_join: "s \<noteq> [] \<Longrightarrow> join_commas (entries s) = s"
  by (simp add: entries_def join_split_commas)

lemma removeEntry_join_commas:
  assumes e: "e \<noteq> []" "COMMA \<notin> set e"
    and xs: "\<forall>x \<in> set xs. x \<noteq> [] \<and> COMMA \<notin> set x \<and> \<not> sublist e x"
    and nul: "NUL \<notin> set (join_commas (xs @ e # ys))"
    and slip: "xs = [] \<and> ys = [] \<longrightarrow> before \<noteq> COMMA"
  shows "removeEntry before (join_commas (xs @ e # ys)) e = join_commas (xs @ ys)"
proof (cases "xs = []")
  case False
  let ?b = "if ys = [] then [] else COMMA # join_commas ys"
  from False have t_eq: "join_commas (xs @ e # ys) = join_commas xs @ COMMA # e @ ?b"
    by (simp add: join_commas_append)
  from xs have "\<forall>x \<in> set xs. \<not> sublist e x" by simp
  from strstr_after_entries [OF e this, of ?b]
  have found: "strstr (join_commas xs @ COMMA # e @ ?b) e = Some (Suc (length (join_commas xs)))" .
  from nul t_eq have "NUL \<notin> set (join_commas xs @ COMMA # e @ ?b)" by simp
  from removeEntry_comma_before [OF found this, of before] t_eq False show ?thesis
    by (simp add: join_commas_append2)
next
  case True
  show ?thesis
  proof (cases "ys = []")
    case ys: True
    with True slip have nb: "last (before # []) \<noteq> COMMA" by simp
    have found: "strstr ([] @ e @ []) e = Some (length ([] :: string))"
      using strstr_at_start [of e "[]"] by simp
    from nul True ys have "NUL \<notin> set ([] @ e @ [])" by simp
    from removeEntry_no_comma [OF found this nb] True ys show ?thesis by simp
  next
    case ys: False
    with True have t_eq: "join_commas (xs @ e # ys) = e @ COMMA # join_commas ys"
      by (simp add: join_commas_Cons)
    show ?thesis
    proof (cases "before = COMMA")
      case False
      then have nb: "last (before # []) \<noteq> COMMA" by simp
      have found: "strstr ([] @ e @ COMMA # join_commas ys) e = Some (length ([] :: string))"
        using strstr_at_start [of e "COMMA # join_commas ys"] by simp
      from nul t_eq have "NUL \<notin> set ([] @ e @ COMMA # join_commas ys)" by simp
      from removeEntry_comma_after [OF found this nb] t_eq True show ?thesis by simp
    next
      case before: True
      have found: "strstr (e @ COMMA # join_commas ys) e = Some 0"
        by (rule strstr_at_start)
      from nul t_eq have "NUL \<notin> set (e @ COMMA # join_commas ys)" by simp
      from removeEntry_slip_followed [OF found this] t_eq True before show ?thesis by simp
    qed
  qed
qed

lemma sublist_iff_strstr: "sublist e t \<longleftrightarrow> strstr t e \<noteq> None"
  by (simp add: strstr_None_iff)

lemma sublist_c_str: "sublist e (c_str mem) \<Longrightarrow> sublist e mem"
  using c_str_prefix [of mem] prefix_imp_sublist sublist_order.order.trans by blast

lemma c_str_append_NUL: "c_str (t @ [NUL]) = c_str t"
  by (induction t) (simp_all add: c_str_def)

lemma removeEntry_not_found: "\<not> sublist entry t \<Longrightarrow> removeEntry before t entry = t"
proof -
  assume "\<not> sublist entry t"
  then have "\<not> sublist entry (c_str t)" using sublist_c_str by blast
  then have "strstr (c_str t) entry = None" by (simp add: strstr_None_iff)
  then show ?thesis
    by (simp add: removeEntry_def remove_quirk_def c_str_append_NUL)
qed

lemma remove_card_reader_quirk_not_found:
  assumes "\<forall>content. quirks_content env = Some content
             \<longrightarrow> \<not> sublist CARD_READER_QUIRK (c_str (read_quirks content))"
  shows "remove_card_reader_quirk env = None"
proof (cases "quirks_content env")
  case None
  then show ?thesis by (simp add: remove_card_reader_quirk_def)
next
  case (Some content)
  with assms have "strstr (c_str (read_quirks content)) CARD_READER_QUIRK = None"
    by (simp add: strstr_None_iff)
  with Some show ?thesis
    by (simp add: remove_card_reader_quirk_def remove_quirk_def)
qed

lemma memmove_within_block:
  assumes "1 \<le> src" "1 \<le> dest + len"
  shows "set (tl (memmove (before # buf) dest src len)) \<subseteq> set buf"
proof -
  obtain s where s: "src = Suc s" using assms(1) by (cases src) auto
  have moved: "set (take len (drop src (before # buf))) \<subseteq> set buf"
    using s by (auto dest: in_set_takeD in_set_dropD)
  show ?thesis
  proof (cases dest)
    case 0
    with assms(2) obtain l where l: "len = Suc l" by (cases len) auto
    have "set (drop len (before # buf)) \<subseteq> set buf"
      using l by (auto dest: in_set_dropD)
    with moved have "set (memmove (before # buf) dest src len) \<subseteq> set buf"
      using 0 by (simp add: memmove_def)
    moreover have "set (tl (memmove (before # buf) dest src len))
                     \<subseteq> set (memmove (before # buf) dest src len)"
      by (cases "memmove (before # buf) dest src len") auto
    ultimately show ?thesis by blast
  next
    case (Suc d)
    have "set (drop (dest + len) (before # buf)) \<subseteq> set buf"
      using Suc by (auto dest: in_set_dropD)
    moreover have "set (take d buf) \<subseteq> set buf"
      by (auto dest: in_set_takeD)
    ultimately show ?thesis
      using moved Suc by (simp add: memmove_def)
  qed
qed

lemma c_str_shorter: "NUL \<in> set mem \<Longrightarrow> length (c_str mem) < length mem"
  by (induction mem) (auto simp add: c_str_def)

lemma remove_quirk_within_block:
  assumes "remove_quirk e before buf = Some q" "NUL \<in> set buf"
  shows "set q \<subseteq> set buf"
proof -
  from assms(1) obtain pos where pos: "strstr (c_str buf) e = Some pos"
    by (cases "strstr (c_str buf) e") (simp_all add: remove_quirk_def)
  from strstr_Some_decomp [OF pos] have "pos + length e \<le> length (c_str buf)" by auto
  with c_str_shorter [OF assms(2)] have len: "1 \<le> length buf - pos - length e" by simp
  from assms(1) pos have
    "q = tl (if (before # buf) ! pos = COMMA
             then memmove (before # buf) pos (Suc (pos + length e)) (length buf - pos - length e)
             else if buf ! (pos + length e) = COMMA
             then memmove (before # buf) (Suc pos) (Suc (Suc (pos + length e)))
                    (length buf - pos - length e - 1)
             else memmove (before # buf) (Suc pos) (Suc (pos + length e))
                    (length buf - pos - length e))"
    by (auto simp add: remove_quirk_def Let_def)
  with len show ?thesis
    using memmove_within_block [of "Suc (pos + length e)" pos "length buf - pos - length e" before buf]
          memmove_within_block [of "Suc (Suc (pos + length e))" "Suc pos"
                                   "length buf - pos - length e - 1" before buf]
          memmove_within_block [of "Suc (pos + length e)" "Suc pos"
                                   "length buf - pos - length e" before buf]
    by (simp split: if_splits)
qed

lemma c_str_subset: "set (c_str mem) \<subseteq> set mem - {NUL}"
  by (auto simp add: c_str_def dest: set_takeWhileD)

section \<open>Claims about the quirk list editor\<close>

text \<open>
  Claim C1. For every text (a C string) in which the entry occurs, with \<open>pos\<close> the
  offset of the first occurrence that \<open>strstr\<close> finds: when the character in front
  of the match is a comma, the result is the text without the match and that comma;
  otherwise, when the character behind the match is a comma, the result is the text
  without the match and the comma behind it; otherwise the result is the text without
  the match, so the sole entry gives the empty text. The text
  \<open>058f:6366:i,b\<close> gives \<open>b\<close>.

  For a match at the very start of the block the source reads \<open>quirks[-1]\<close>, the
  byte in front of the block (\<open>heap_before\<close>). That byte is the top byte of the size
  word the allocator keeps in front of a block of 1024 bytes, which is zero. The
  theorem asks less: that the byte is not a comma, and only for a match at the start
  that has no comma behind it; with a comma behind the match the result is the same
  for every byte.
\<close>

theorem removeEntry_follows_policy:
  assumes found: "strstr text entry = Some pos"
    and nul: "NUL \<notin> set text"
    and alloc: "pos = 0 \<and> \<not> (length entry < length text \<and> text ! length entry = COMMA)
                 \<longrightarrow> before \<noteq> COMMA"
  shows "take (length entry) (drop pos text) = entry \<and>
         removeEntry before text entry =
           (if 0 < pos \<and> text ! (pos - 1) = COMMA
            then take (pos - 1) text @ drop (pos + length entry) text
            else if pos + length entry < length text \<and> text ! (pos + length entry) = COMMA
            then take pos text @ drop (Suc (pos + length entry)) text
            else take pos text @ drop (pos + length entry) text) \<and>
         removeEntry before ''058f:6366:i,b'' ''058f:6366:i'' = ''b''"
proof (intro conjI)
  from strstr_Some_decomp [OF found] obtain a b
    where t_eq: "text = a @ entry @ b" and pos: "length a = pos" by blast
  then show "take (length entry) (drop pos text) = entry" by simp
  show "removeEntry before text entry =
           (if 0 < pos \<and> text ! (pos - 1) = COMMA
            then take (pos - 1) text @ drop (pos + length entry) text
            else if pos + length entry < length text \<and> text ! (pos + length entry) = COMMA
            then take pos text @ drop (Suc (pos + length entry)) text
            else take pos text @ drop (pos + length entry) text)"
  proof (cases "pos = 0 \<and> before = COMMA")
    case False
    then have "pos = 0 \<longrightarrow> before \<noteq> COMMA" by blast
    from removeEntry_policy [OF found nul this] show ?thesis .
  next
    case True
    with alloc have after: "length entry < length text" "text ! length entry = COMMA"
      by auto
    from True pos t_eq have t0: "text = entry @ b" by simp
    with after obtain b' where b: "b = COMMA # b'"
      by (cases b) (auto simp add: nth_append)
    from found nul t0 b True
    have "removeEntry COMMA (entry @ COMMA # b') entry = b'"
      by (intro removeEntry_slip_followed) auto
    with True t0 b show ?thesis by simp
  qed
  show "removeEntry before ''058f:6366:i,b'' ''058f:6366:i'' = ''b''"
    by (cases "before = COMMA")
       (simp_all add: removeEntry_def remove_quirk_def c_str_def memmove_def Let_def)
qed

theorem removeEntry_follows_policy_witness:
  "removeEntry NUL ''058f:6366:i'' CARD_READER_QUIRK = [] \<and>
   removeEntry NUL ''058f:6366:i,b'' CARD_READER_QUIRK = ''b'' \<and>
   removeEntry COMMA ''058f:6366:i,b'' CARD_READER_QUIRK = ''b'' \<and>
   removeEntry NUL ''a,058f:6366:i,b'' CARD_READER_QUIRK = ''a,b'' \<and>
   removeEntry NUL ''a,058f:6366:i'' CARD_READER_QUIRK = ''a'' \<and>
   remove_card_reader_quirk
     \<lparr>quirks_content = Some ''058f:6366:i'', quirks_writable = True, heap_before = NUL\<rparr>
     = Some []"
proof -
  have f: "strstr ''058f:6366:i'' CARD_READER_QUIRK = Some 0"
    "strstr ''058f:6366:i,b'' CARD_READER_QUIRK = Some 0"
    "strstr ''a,058f:6366:i,b'' CARD_READER_QUIRK = Some 2"
    "strstr ''a,058f:6366:i'' CARD_READER_QUIRK = Some 2"
    by (simp_all add: CARD_READER_QUIRK_def)
  have n: "NUL \<notin> set ''058f:6366:i''" "NUL \<notin> set ''058f:6366:i,b''"
    "NUL \<notin> set ''a,058f:6366:i,b''" "NUL \<notin> set ''a,058f:6366:i''"
    by simp_all
  have written: "remove_card_reader_quirk
     \<lparr>quirks_content = Some ''058f:6366:i'', quirks_writable = True, heap_before = NUL\<rparr>
     = Some []"
    by (simp add: remove_card_reader_quirk_def read_quirks_def remove_quirk_def
          c_str_def strlen_def memmove_def CARD_READER_QUIRK_def)
  from removeEntry_follows_policy [OF f(1) n(1), of NUL]
       removeEntry_follows_policy [OF f(2) n(2), of NUL]
       removeEntry_follows_policy [OF f(2) n(2), of COMMA]
       removeEntry_follows_policy [OF f(3) n(3), of NUL]
       removeEntry_follows_policy [OF f(4) n(4), of NUL]
       written
  show ?thesis
    by (simp add: CARD_READER_QUIRK_def)
qed

text \<open>
  Claim C2, as stated, fails. \<open>strstr\<close> finds the quirk as a substring, also inside a
  longer entry. In the list of the two entries \<open>0781:5583:u\<close> and \<open>058f:6366:ib\<close>,
  which has no stray comma, the match has a comma in front; the comma and the match are
  deleted, and the result is the single entry \<open>0781:5583:ub\<close>: neither entry of the
  input is in the result.
\<close>

theorem removeEntry_merges_neighbours_counterexample:
  "entries ''0781:5583:u,058f:6366:ib'' = [''0781:5583:u'', ''058f:6366:ib''] \<and>
   \<not> stray_comma ''0781:5583:u,058f:6366:ib'' \<and>
   strstr ''0781:5583:u,058f:6366:ib'' CARD_READER_QUIRK = Some 12 \<and>
   removeEntry NUL ''0781:5583:u,058f:6366:ib'' CARD_READER_QUIRK = ''0781:5583:ub'' \<and>
   entries ''0781:5583:ub'' = [''0781:5583:ub''] \<and>
   ''0781:5583:u'' \<notin> set (entries ''0781:5583:ub'') \<and>
   ''058f:6366:ib'' \<notin> set (entries ''0781:5583:ub'')"
  by (simp add: entries_def stray_comma_def removeEntry_def remove_quirk_def c_str_def
        memmove_def CARD_READER_QUIRK_def)

text \<open>
  Claim C2, amended. Take a comma-delimited text without a leading, trailing or doubled
  comma of which the entry is one of the entries, and in which no earlier entry
  contains the entry as a substring (so the first match is that whole entry). Then the
  result has no leading, trailing or doubled comma, and its entries are the other
  entries of the input, unchanged and in their order; the removed entry may be the
  first, the last, one in the middle or the only one. For the only entry this holds
  when the byte in front of the block is not a comma, as in claim C1.
\<close>

theorem removeEntry_keeps_other_entries:
  assumes ent: "entries text = xs @ entry # ys"
    and tidy: "\<not> stray_comma text"
    and first: "\<forall>x \<in> set xs. \<not> sublist entry x"
    and nul: "NUL \<notin> set text"
    and slip: "xs = [] \<and> ys = [] \<longrightarrow> before \<noteq> COMMA"
  shows "entries (removeEntry before text entry) = xs @ ys \<and>
         \<not> stray_comma (removeEntry before text entry)"
proof -
  from ent have nonempty: "text \<noteq> []" by (auto simp add: entries_def)
  with ent have t_eq: "text = join_commas (xs @ entry # ys)"
    using entries_join [of "text"] by simp
  have all: "\<forall>e \<in> set (xs @ entry # ys). e \<noteq> [] \<and> COMMA \<notin> set e"
    using tidy_entries [OF tidy] ent by simp
  then have e: "entry \<noteq> []" "COMMA \<notin> set entry" by simp_all
  from all first have xs: "\<forall>x \<in> set xs. x \<noteq> [] \<and> COMMA \<notin> set x \<and> \<not> sublist entry x"
    by simp
  from nul t_eq have "NUL \<notin> set (join_commas (xs @ entry # ys))" by simp
  from removeEntry_join_commas [OF e xs this slip] t_eq
  have result: "removeEntry before text entry = join_commas (xs @ ys)" by simp
  from all have rest: "\<forall>e \<in> set (xs @ ys). e \<noteq> [] \<and> COMMA \<notin> set e" by simp
  from entries_join_commas [OF rest] join_commas_tidy [OF rest] result show ?thesis by simp
qed

theorem removeEntry_keeps_other_entries_witness:
  "removeEntry NUL ''a,058f:6366:i,b'' CARD_READER_QUIRK = ''a,b'' \<and>
   entries (removeEntry NUL ''a,058f:6366:i,b'' CARD_READER_QUIRK) = [''a'', ''b''] \<and>
   \<not> stray_comma (removeEntry NUL ''a,058f:6366:i,b'' CARD_READER_QUIRK) \<and>
   entries (removeEntry NUL ''058f:6366:i'' CARD_READER_QUIRK) = [] \<and>
   entries (removeEntry COMMA ''058f:6366:i,b'' CARD_READER_QUIRK) = [''b''] \<and>
   entries (removeEntry NUL ''a,058f:6366:i'' CARD_READER_QUIRK) = [''a'']"
proof -
  have mid: "entries ''a,058f:6366:i,b'' = [''a''] @ CARD_READER_QUIRK # [''b'']"
    and sole: "entries ''058f:6366:i'' = [] @ CARD_READER_QUIRK # []"
    and start: "entries ''058f:6366:i,b'' = [] @ CARD_READER_QUIRK # [''b'']"
    and fin: "entries ''a,058f:6366:i'' = [''a''] @ CARD_READER_QUIRK # []"
    by (simp_all add: entries_def CARD_READER_QUIRK_def)
  have tidy: "\<not> stray_comma ''a,058f:6366:i,b''" "\<not> stray_comma ''058f:6366:i''"
    "\<not> stray_comma ''058f:6366:i,b''" "\<not> stray_comma ''a,058f:6366:i''"
    by (simp_all add: stray_comma_def)
  have first: "\<forall>x \<in> set [''a'']. \<not> sublist CARD_READER_QUIRK x"
    "\<forall>x \<in> set ([] :: string list). \<not> sublist CARD_READER_QUIRK x"
    by (simp_all add: sublist_iff_strstr CARD_READER_QUIRK_def)
  have nul: "NUL \<notin> set ''a,058f:6366:i,b''" "NUL \<notin> set ''058f:6366:i''"
    "NUL \<notin> set ''058f:6366:i,b''" "NUL \<notin> set ''a,058f:6366:i''"
    by simp_all
  from removeEntry_keeps_other_entries [OF mid tidy(1) first(1) nul(1), of NUL]
       removeEntry_keeps_other_entries [OF sole tidy(2) first(2) nul(2), of NUL]
       removeEntry_keeps_other_entries [OF start tidy(3) first(2) nul(3), of COMMA]
       removeEntry_keeps_other_entries [OF fin tidy(4) first(1) nul(4), of NUL]
  show ?thesis
    by (simp add: removeEntry_def remove_quirk_def c_str_def memmove_def CARD_READER_QUIRK_def)
qed

text \<open>
  Claim C6. When the entry is not a substring of the text, \<open>removeEntry\<close> returns the
  text as it is. When the quirks file cannot be read, or the text read from it does not
  contain the quirk, \<open>remove_card_reader_quirk\<close> does not open the file for writing:
  it rewrites the file only if the quirk was found in the text.
\<close>

theorem not_found_leaves_file_alone:
  "(\<not> sublist entry t \<longrightarrow> removeEntry before t entry = t) \<and>
   ((\<forall>content. quirks_content env = Some content
        \<longrightarrow> \<not> sublist CARD_READER_QUIRK (c_str (read_quirks content)))
    \<longrightarrow> remove_card_reader_quirk env = None) \<and>
   (remove_card_reader_quirk env \<noteq> None
    \<longrightarrow> (\<exists>content. quirks_content env = Some content \<and>
                    sublist CARD_READER_QUIRK (c_str (read_quirks content))))"
proof (intro conjI impI)
  assume "\<not> sublist entry t"
  then show "removeEntry before t entry = t" by (rule removeEntry_not_found)
next
  assume "\<forall>content. quirks_content env = Some content
            \<longrightarrow> \<not> sublist CARD_READER_QUIRK (c_str (read_quirks content))"
  then show "remove_card_reader_quirk env = None" by (rule remove_card_reader_quirk_not_found)
next
  assume written: "remove_card_reader_quirk env \<noteq> None"
  show "\<exists>content. quirks_content env = Some content \<and>
                  sublist CARD_READER_QUIRK (c_str (read_quirks content))"
  proof (rule ccontr)
    assume "\<not> (\<exists>content. quirks_content env = Some content \<and>
                  sublist CARD_READER_QUIRK (c_str (read_quirks content)))"
    then have "\<forall>content. quirks_content env = Some content
                 \<longrightarrow> \<not> sublist CARD_READER_QUIRK (c_str (read_quirks content))"
      by blast
    from remove_card_reader_quirk_not_found [OF this] written show False by simp
  qed
qed

theorem not_found_leaves_file_alone_witness:
  "removeEntry NUL ''a,b,c'' ''zzz'' = ''a,b,c'' \<and>
   remove_card_reader_quirk
     \<lparr>quirks_content = Some (''a,b,c'' @ [LF]), quirks_writable = True, heap_before = NUL\<rparr> = None \<and>
   remove_card_reader_quirk
     \<lparr>quirks_content = Some (''a,058f:6366:i,b'' @ [LF]), quirks_writable = True,
      heap_before = NUL\<rparr> = Some ''a,b''"
proof -
  have nf: "\<not> sublist ''zzz'' ''a,b,c''"
    by (simp add: sublist_iff_strstr)
  have nq: "\<forall>content. quirks_content
               \<lparr>quirks_content = Some (''a,b,c'' @ [LF]), quirks_writable = True,
                heap_before = NUL\<rparr> = Some content
             \<longrightarrow> \<not> sublist CARD_READER_QUIRK (c_str (read_quirks content))"
    by (simp add: sublist_iff_strstr read_quirks_def c_str_def CARD_READER_QUIRK_def)
  have w: "remove_card_reader_quirk
     \<lparr>quirks_content = Some (''a,058f:6366:i,b'' @ [LF]), quirks_writable = True,
      heap_before = NUL\<rparr> = Some ''a,b''"
    by (simp add: remove_card_reader_quirk_def read_quirks_def remove_quirk_def c_str_def
          strlen_def memmove_def CARD_READER_QUIRK_def)
  from not_found_leaves_file_alone
         [of "''zzz''" "''a,b,c''" NUL
             "\<lparr>quirks_content = Some (''a,b,c'' @ [LF]), quirks_writable = True,
               heap_before = NUL\<rparr>"]
       nf nq w
  show ?thesis by simp
qed

text \<open>
  Claim C9, as stated, fails. The editor overwrites one final line feed only. A content
  that ends with two line feeds keeps the first of them in the text, and the file is
  rewritten with a line feed at its end.
\<close>

theorem second_newline_survives_counterexample:
  "remove_card_reader_quirk
     \<lparr>quirks_content = Some (''a,058f:6366:i'' @ [LF, LF]), quirks_writable = True,
      heap_before = NUL\<rparr>
     = Some (''a'' @ [LF])"
  by (simp add: remove_card_reader_quirk_def read_quirks_def remove_quirk_def
        c_str_def strlen_def memmove_def CARD_READER_QUIRK_def)

text \<open>
  Claim C9, amended. When the bytes read from the quirks file (at most 1023) end with a
  line feed and the quirk is found in the text in front of it, the editor replaces that
  one line feed by the terminator, edits the text, and rewrites the file with the
  edited text and nothing behind it: the line feed is not put back. The rewritten file
  has no line feed at all when the text in front of the stripped line feed had none; a
  line feed that was in that text may remain, also at the end.
\<close>

theorem trailing_newline_not_restored:
  assumes content: "quirks_content env = Some content"
    and lf: "take 1023 content = body @ [LF]"
    and writable: "quirks_writable env"
    and found: "sublist CARD_READER_QUIRK (c_str body)"
  shows "remove_card_reader_quirk env
           = Some (removeEntry (heap_before env) body CARD_READER_QUIRK) \<and>
         (LF \<notin> set body \<longrightarrow>
            LF \<notin> set (removeEntry (heap_before env) body CARD_READER_QUIRK))"
proof -
  from lf have buf: "read_quirks content = body @ [NUL]"
    by (simp add: read_quirks_def)
  from found obtain pos where "strstr (c_str (body @ [NUL])) CARD_READER_QUIRK = Some pos"
    by (auto simp add: sublist_iff_strstr c_str_append_NUL)
  then obtain q where q: "remove_quirk CARD_READER_QUIRK (heap_before env) (body @ [NUL]) = Some q"
    by (simp add: remove_quirk_def Let_def)
  then have edited: "removeEntry (heap_before env) body CARD_READER_QUIRK = c_str q"
    by (simp add: removeEntry_def)
  from content lf buf q writable
  have "remove_card_reader_quirk env = Some (c_str q)"
    by (simp add: remove_card_reader_quirk_def take_strlen)
  moreover have "LF \<notin> set (c_str q)" if "LF \<notin> set body"
  proof -
    from remove_quirk_within_block [OF q] have "set q \<subseteq> set (body @ [NUL])" by simp
    with c_str_subset [of q] that show ?thesis by auto
  qed
  ultimately show ?thesis using edited by simp
qed

theorem trailing_newline_not_restored_witness:
  "remove_card_reader_quirk
     \<lparr>quirks_content = Some (''a,058f:6366:i,b'' @ [LF]), quirks_writable = True,
      heap_before = NUL\<rparr> = Some ''a,b'' \<and>
   LF \<notin> set ''a,b''"
proof -
  have found: "sublist CARD_READER_QUIRK (c_str ''a,058f:6366:i,b'')"
    by (simp add: sublist_iff_strstr c_str_def CARD_READER_QUIRK_def)
  have e: "removeEntry NUL ''a,058f:6366:i,b'' CARD_READER_QUIRK = ''a,b''"
    by (simp add: removeEntry_def remove_quirk_def c_str_def memmove_def CARD_READER_QUIRK_def)
  from trailing_newline_not_restored
         [of "\<lparr>quirks_content = Some (''a,058f:6366:i,b'' @ [LF]), quirks_writable = True,
               heap_before = NUL\<rparr>" "''a,058f:6366:i,b'' @ [LF]" "''a,058f:6366:i,b''"]
       found e
  show ?thesis by simp
qed

end
